theory Spec2Isabelle
  imports Complex_Main "HOL-Library.Log_Nat"
begin

section \<open>JavaScript numbers\<close>

text \<open>
  The extension is TypeScript: \<^verbatim>\<open>countChecked\<close>, \<^verbatim>\<open>nFiles\<close> and every intermediate
  result of \<^verbatim>\<open>percentComplete\<close> are values of the type \<^verbatim>\<open>number\<close>, that is IEEE 754
  binary64. A finite number is modelled by the rational it denotes, and each arithmetic
  operator returns the exact result rounded to the nearest number, ties to the even
  significand (53 bits; the least exponent of the unit in the last place is \<open>-1074\<close>,
  which covers the subnormal numbers).

  Not modelled: \<^verbatim>\<open>NaN\<close>, the infinities and the sign of zero. They do not arise for an
  item count that is a number: the only division is by \<^verbatim>\<open>nFiles + 1\<close>, which is at least 1,
  the counter stops at \<open>2^53\<close>, and so no result comes near \<open>2^1024\<close>.
\<close>

definition roundTiesToEven :: "rat \<Rightarrow> int" where
  "roundTiesToEven x =
     (let n = \<lfloor>x\<rfloor>; r = x - of_int n
      in if r < 1 / 2 then n
         else if 1 / 2 < r then n + 1
         else if even n then n else n + 1)"

text \<open>\<open>ilog2 x\<close> is the binary exponent of a positive \<open>x\<close>: \<open>2^p \<le> x < 2^(p+1)\<close>.\<close>

definition ilog2 :: "rat \<Rightarrow> int" where
  "ilog2 x =
     (case quotient_of x of (a, b) \<Rightarrow>
        (let p = bitlen a - bitlen b in if 2 powi p \<le> x then p else p - 1))"

text \<open>The exponent of the unit in the last place of the numbers around \<open>x\<close>.\<close>

definition ulp_exponent :: "rat \<Rightarrow> int" where
  "ulp_exponent x = max (ilog2 \<bar>x\<bar> - 52) (- 1074)"

definition round_double :: "rat \<Rightarrow> rat" where
  "round_double x =
     (if x = 0 then 0
      else let ulp = 2 powi ulp_exponent x
           in of_int (roundTiesToEven (x / ulp)) * ulp)"

definition js_add :: "rat \<Rightarrow> rat \<Rightarrow> rat" where
  "js_add a b = round_double (a + b)"

definition js_sub :: "rat \<Rightarrow> rat \<Rightarrow> rat" where
  "js_sub a b = round_double (a - b)"

definition js_mul :: "rat \<Rightarrow> rat \<Rightarrow> rat" where
  "js_mul a b = round_double (a * b)"

text \<open>Only called with a divisor that is not zero.\<close>

definition js_div :: "rat \<Rightarrow> rat \<Rightarrow> rat" where
  "js_div a b = round_double (a / b)"

text \<open>\<^verbatim>\<open>Math.floor\<close> is exact: the floor of a number is a number.\<close>

definition Math_floor :: "rat \<Rightarrow> rat" where
  "Math_floor x = of_int \<lfloor>x\<rfloor>"

section \<open>The host: progress surfaces and the promise of a run\<close>

text \<open>
  \<^verbatim>\<open>window.withProgress(options, task)\<close> belongs to the editor, not to this repository.
  What the listener relies on: the call makes a new progress surface with the given title
  and at once calls \<^verbatim>\<open>task\<close> with the surface's \<^verbatim>\<open>progress\<close> object; the task's
  \<^verbatim>\<open>new Promise(executor)\<close> runs its executor at once with the promise's \<^verbatim>\<open>resolve\<close>
  function; the surface stays open until that promise is resolved. Calling \<^verbatim>\<open>resolve\<close>
  again later is allowed and changes nothing.

  A surface is named by a handle, and its \<^verbatim>\<open>progress\<close> object and its \<^verbatim>\<open>resolve\<close> function
  are named by the same handle. The host is the list of the effects it has seen, oldest first.
\<close>

type_synonym handle = nat

datatype effect =
    WithProgress handle string
  | Report handle string rat
  | Resolve handle

fun opened :: "effect list \<Rightarrow> handle list" where
  "opened [] = []"
| "opened (WithProgress h t # w) = h # opened w"
| "opened (e # w) = opened w"

text \<open>The handle of the next surface: the number of surfaces made so far.\<close>

definition fresh :: "effect list \<Rightarrow> handle" where
  "fresh w = length (opened w)"

text \<open>The surfaces whose promise nobody has resolved yet.\<close>

definition open_surfaces :: "effect list \<Rightarrow> handle list" where
  "open_surfaces w = filter (\<lambda>h. Resolve h \<notin> set w) (opened w)"

text \<open>How often the \<^verbatim>\<open>resolve\<close> function of a surface has been called.\<close>

definition resolve_calls :: "handle \<Rightarrow> effect list \<Rightarrow> nat" where
  "resolve_calls h w = length (filter (\<lambda>e. e = Resolve h) w)"

text \<open>The \<^verbatim>\<open>increment\<close> fields of the reports, oldest first.\<close>

fun increments :: "effect list \<Rightarrow> rat list" where
  "increments [] = []"
| "increments (Report h m d # w) = d # increments w"
| "increments (e # w) = increments w"

section \<open>The progress listener\<close>

text \<open>
  A field of object type holds \<^verbatim>\<open>undefined\<close> until it is assigned, \<^verbatim>\<open>null\<close>, or an object.
\<close>

datatype 'a field = Undefined | Null | Object 'a

text \<open>
  The anonymous class of \<^verbatim>\<open>createProgressListener\<close>. \<^verbatim>\<open>progress\<close> and \<^verbatim>\<open>resolve\<close> are
  declared without an initialiser.
\<close>

record progressListener =
  countChecked :: rat
  nFiles :: rat
  progress :: "handle field"
  resolve :: "handle field"

definition new_progressListener :: progressListener where
  "new_progressListener =
     \<lparr>countChecked = 0, nFiles = 0, progress = Undefined, resolve = Undefined\<rparr>"

text \<open>
  The payload of a start notification is the number of items, a natural number
  (\<open>total \<ge> 0\<close> in the specification); the listener stores it as a number. Every count
  below \<open>2^53\<close> is a number; of the larger counts only those that are numbers can arrive.
\<close>

record EventNames =
  startEvent :: string
  incrementEvent :: string
  endEvent :: string
  title :: "nat \<Rightarrow> string"

text \<open>
  A count inside a template literal prints in decimal (below \<open>10^21\<close>; JavaScript prints
  larger numbers with an exponent, which is not modelled).
\<close>

function Number_toString :: "nat \<Rightarrow> string" where
  "Number_toString n =
     (if n < 10 then [''0123456789'' ! n]
      else Number_toString (n div 10) @ [''0123456789'' ! (n mod 10)])"
  by pat_completeness auto
termination
  by (relation "measure id") auto

definition startCheckFiles ::
  "EventNames \<Rightarrow> nat \<Rightarrow> progressListener \<Rightarrow> effect list \<Rightarrow> progressListener \<times> effect list" where
  "startCheckFiles names n this w =
     (let h = fresh w
      in (this\<lparr>countChecked := 0, nFiles := of_nat n, progress := Object h, resolve := Object h\<rparr>,
          w @ [WithProgress h (title names n)]))"

definition percentComplete :: "progressListener \<Rightarrow> rat" where
  "percentComplete this =
     Math_floor (js_mul (js_div (countChecked this) (js_add (nFiles this) 1)) 100)"

text \<open>\<^verbatim>\<open>this.progress != null\<close> is false for \<^verbatim>\<open>null\<close> and for \<^verbatim>\<open>undefined\<close>.\<close>

definition checkFile ::
  "string \<Rightarrow> progressListener \<Rightarrow> effect list \<Rightarrow> progressListener \<times> effect list" where
  "checkFile fileName this w =
     (case progress this of
        Undefined \<Rightarrow> (this, w)
      | Null \<Rightarrow> (this, w)
      | Object h \<Rightarrow>
          (let oldPercent = percentComplete this;
               this' = this\<lparr>countChecked := js_add (countChecked this) 1\<rparr>;
               newPercent = percentComplete this'
           in (this', w @ [Report h fileName (js_sub newPercent oldPercent)])))"

text \<open>
  Calling \<^verbatim>\<open>this.resolve({})\<close> while the field holds no function throws a
  \<^verbatim>\<open>TypeError\<close>; the three assignments before the call have happened by then.
\<close>

datatype error = TypeError

datatype completion = Normal | Throw error | NotModelled

definition endCheckFiles ::
  "progressListener \<Rightarrow> effect list \<Rightarrow> completion \<times> progressListener \<times> effect list" where
  "endCheckFiles this w =
     (let this' = this\<lparr>countChecked := 0, nFiles := 0, progress := Null\<rparr>
      in case resolve this' of
           Undefined \<Rightarrow> (Throw TypeError, this', w)
         | Null \<Rightarrow> (Throw TypeError, this', w)
         | Object h \<Rightarrow> (Normal, this', w @ [Resolve h]))"

section \<open>Registering the listeners\<close>

text \<open>
  Each call of \<^verbatim>\<open>createProgressListener\<close> makes a new listener object and registers three
  closures over it with \<^verbatim>\<open>client.onNotification\<close>. The objects live in a store, addressed
  by their index; a closure is the address of its listener (and, for the start handler, the
  \<^verbatim>\<open>names\<close> it reads the title from).
\<close>

type_synonym address = nat

datatype handler =
    OnStart address EventNames
  | OnIncrement address
  | OnEnd address

record extension =
  objects :: "progressListener list"
  handlers :: "string \<rightharpoonup> handler"
  window :: "effect list"

definition createProgressListener :: "EventNames \<Rightarrow> extension \<Rightarrow> extension" where
  "createProgressListener names client =
     (let progressListener = length (objects client)
      in client
           \<lparr>objects := objects client @ [new_progressListener],
            handlers := (handlers client)
              (startEvent names \<mapsto> OnStart progressListener names,
               incrementEvent names \<mapsto> OnIncrement progressListener,
               endEvent names \<mapsto> OnEnd progressListener)\<rparr>)"

definition checkEvent :: EventNames where
  "checkEvent =
     \<lparr>startEvent = ''fsharp/startCheckFiles'',
      incrementEvent = ''fsharp/checkFile'',
      endEvent = ''fsharp/endCheckFiles'',
      title = (\<lambda>nFiles. ''Check '' @ Number_toString nFiles @ '' files'')\<rparr>"

definition analyzeEvent :: EventNames where
  "analyzeEvent =
     \<lparr>startEvent = ''fsharp/startAnalyzeProjects'',
      incrementEvent = ''fsharp/analyzeProject'',
      endEvent = ''fsharp/endAnalyzeProjects'',
      title = (\<lambda>nFiles. ''Analyze '' @ Number_toString nFiles @ '' projects'')\<rparr>"

definition createProgressListeners :: "extension \<Rightarrow> extension" where
  "createProgressListeners client =
     createProgressListener analyzeEvent (createProgressListener checkEvent client)"

text \<open>The extension once the client is ready: no listener notified yet, no surface.\<close>

definition activated :: extension where
  "activated = createProgressListeners \<lparr>objects = [], handlers = Map.empty, window = []\<rparr>"

section \<open>Notifications\<close>

text \<open>
  A notification is a method name and its parameter. The client calls the handler
  registered for the method, and ignores a method without a handler. The end handler takes
  no parameter and ignores what it is given. A parameter that is not of the type the
  handler declares (a number for start, a string for increment) is outside the protocol.
\<close>

datatype params = NumberParam nat | StringParam string | NoParams

definition deliver :: "string \<Rightarrow> params \<Rightarrow> extension \<Rightarrow> completion \<times> extension" where
  "deliver method p ext =
     (case handlers ext method of
        None \<Rightarrow> (Normal, ext)
      | Some (OnStart a names) \<Rightarrow>
          (case p of
             NumberParam n \<Rightarrow>
               if a < length (objects ext) then
                 (let (this', w') = startCheckFiles names n (objects ext ! a) (window ext)
                  in (Normal, ext\<lparr>objects := (objects ext)[a := this'], window := w'\<rparr>))
               else (NotModelled, ext)
           | _ \<Rightarrow> (NotModelled, ext))
      | Some (OnIncrement a) \<Rightarrow>
          (case p of
             StringParam fileName \<Rightarrow>
               if a < length (objects ext) then
                 (let (this', w') = checkFile fileName (objects ext ! a) (window ext)
                  in (Normal, ext\<lparr>objects := (objects ext)[a := this'], window := w'\<rparr>))
               else (NotModelled, ext)
           | _ \<Rightarrow> (NotModelled, ext))
      | Some (OnEnd a) \<Rightarrow>
          if a < length (objects ext) then
            (let (c, this', w') = endCheckFiles (objects ext ! a) (window ext)
             in (c, ext\<lparr>objects := (objects ext)[a := this'], window := w'\<rparr>))
          else (NotModelled, ext))"

text \<open>
  A sequence of notifications, handled one after the other. The client catches what a
  handler throws and goes on with the next notification.
\<close>

fun run :: "(string \<times> params) list \<Rightarrow> extension \<Rightarrow> completion list \<times> extension" where
  "run [] ext = ([], ext)"
| "run ((method, p) # ms) ext =
     (let (c, ext') = deliver method p ext;
          (cs, ext'') = run ms ext'
      in (c # cs, ext''))"

text \<open>The listener that a handler is closed over.\<close>

fun closed_over :: "handler \<Rightarrow> address" where
  "closed_over (OnStart a names) = a"
| "closed_over (OnIncrement a) = a"
| "closed_over (OnEnd a) = a"

text \<open>
  The listener behind an event class: the object that the handler of the class's start
  notification is closed over.
\<close>

definition listener :: "EventNames \<Rightarrow> extension \<Rightarrow> progressListener option" where
  "listener names ext =
     (case handlers ext (startEvent names) of
        Some (OnStart a ns) \<Rightarrow> if a < length (objects ext) then Some (objects ext ! a) else None
      | _ \<Rightarrow> None)"

text \<open>The increment notifications of one run, handled by one listener.\<close>

fun checkFiles ::
  "string list \<Rightarrow> progressListener \<Rightarrow> effect list \<Rightarrow> progressListener \<times> effect list" where
  "checkFiles [] this w = (this, w)"
| "checkFiles (fileName # fs) this w =
     (let (this', w') = checkFile fileName this w in checkFiles fs this' w')"

text \<open>One listener's run so far: a start with the total, then the increments.\<close>

definition start_then ::
  "EventNames \<Rightarrow> nat \<Rightarrow> string list \<Rightarrow> progressListener \<Rightarrow> effect list
     \<Rightarrow> progressListener \<times> effect list" where
  "start_then names n fs this w =
     (let (this', w') = startCheckFiles names n this w in checkFiles fs this' w')"

text \<open>The formula of the specification, in exact arithmetic.\<close>

definition spec_percent :: "nat \<Rightarrow> nat \<Rightarrow> int" where
  "spec_percent completedCount totalCount =
     \<lfloor>(of_nat completedCount :: rat) / (of_nat totalCount + 1) * 100\<rfloor>"

section \<open>Rounding to the nearest number\<close>

lemma two_powi_pos: "(0::rat) < 2 powi n"
  by (simp add: zero_less_power_int)

lemma two_powi_le: "m \<le> n \<Longrightarrow> (2::rat) powi m \<le> 2 powi n"
  by (rule power_int_increasing) simp_all

lemma two_powi_less: "m < n \<Longrightarrow> (2::rat) powi m < 2 powi n"
  by (rule power_int_strict_increasing) simp_all

lemma two_powi_less_cancel: "(2::rat) powi m < 2 powi n \<Longrightarrow> m < n"
  using two_powi_le [of n m] by (cases "m < n") auto

lemma two_powi_Suc: "(2::rat) powi (n + 1) = 2 * 2 powi n"
  by (simp add: power_int_add_1')

lemma bitlen_powi:
  assumes "0 < a"
  shows "(2::rat) powi (bitlen a - 1) \<le> of_int a" and "of_int a < (2::rat) powi bitlen a"
proof -
  have pos: "1 \<le> bitlen a"
    using assms bitlen_eq_zero_iff [of a] bitlen_nonneg [of a] by linarith
  have b: "2 ^ nat (bitlen a - 1) \<le> a" "a < 2 ^ nat (bitlen a)"
    using bitlen_bounds [OF assms] by simp_all
  have "(of_int (2 ^ nat (bitlen a - 1)) :: rat) \<le> of_int a"
    using b(1) by (simp only: of_int_le_iff)
  then show "(2::rat) powi (bitlen a - 1) \<le> of_int a"
    using pos by (simp add: power_int_nonneg_exp)
  have "(of_int a :: rat) < of_int (2 ^ nat (bitlen a))"
    using b(2) by (simp only: of_int_less_iff)
  then show "of_int a < (2::rat) powi bitlen a"
    using pos by (simp add: power_int_nonneg_exp)
qed

lemma ilog2_bounds:
  assumes "0 < x"
  shows "2 powi ilog2 x \<le> x" and "x < 2 powi (ilog2 x + 1)"
proof -
  obtain a b where ab: "quotient_of x = (a, b)"
    by (cases "quotient_of x")
  have b: "0 < b" using ab by (rule quotient_of_denom_pos)
  have x: "x = of_int a / of_int b" using ab by (rule quotient_of_div)
  have a: "0 < a"
    using assms b unfolding x by (simp add: zero_less_divide_iff)
  define p where "p = bitlen a - bitlen b"
  have lo: "2 powi (p - 1) \<le> x"
  proof -
    have "(2::rat) powi (bitlen a - 1) / 2 powi bitlen b \<le> of_int a / of_int b"
      using bitlen_powi [OF a] bitlen_powi [OF b] a b
      by (intro frac_le) (simp_all add: two_powi_pos less_imp_le)
    moreover have "(2::rat) powi (p - 1) = 2 powi (bitlen a - 1) / 2 powi bitlen b"
      unfolding p_def by (simp add: power_int_diff)
    ultimately show ?thesis unfolding x by simp
  qed
  have hi: "x < 2 powi (p + 1)"
  proof -
    have "of_int a / of_int b < (2::rat) powi bitlen a / 2 powi (bitlen b - 1)"
      using bitlen_powi [OF a] bitlen_powi [OF b] a
      by (intro frac_less) (simp_all add: two_powi_pos)
    moreover have "(2::rat) powi (p + 1) = 2 powi bitlen a / 2 powi (bitlen b - 1)"
    proof -
      have "p + 1 = bitlen a - (bitlen b - 1)" unfolding p_def by simp
      then show ?thesis by (simp only: power_int_diff) (simp add: power_int_diff)
    qed
    ultimately show ?thesis unfolding x by simp
  qed
  have il: "ilog2 x = (if 2 powi p \<le> x then p else p - 1)"
    unfolding ilog2_def ab p_def by (simp add: Let_def)
  show "2 powi ilog2 x \<le> x"
    using lo unfolding il by simp
  show "x < 2 powi (ilog2 x + 1)"
    using hi unfolding il by (simp add: not_le)
qed

lemma ilog2_less: "0 < x \<Longrightarrow> x < 2 powi p \<Longrightarrow> ilog2 x < p"
  using ilog2_bounds(1) [of x] two_powi_less_cancel [of "ilog2 x" p] by simp

lemma ilog2_ge: "0 < x \<Longrightarrow> 2 powi p \<le> x \<Longrightarrow> p \<le> ilog2 x"
  using ilog2_bounds(2) [of x] two_powi_less_cancel [of p "ilog2 x + 1"] by simp

lemma ilog2_mono: "0 < x \<Longrightarrow> x \<le> y \<Longrightarrow> ilog2 x \<le> ilog2 y"
  using ilog2_bounds(1) [of x] ilog2_ge [of y "ilog2 x"] by simp

lemma roundTiesToEven_of_int: "roundTiesToEven (of_int n) = n"
  by (simp add: roundTiesToEven_def)

lemma roundTiesToEven_cases:
  "roundTiesToEven x = \<lfloor>x\<rfloor> \<and> x - of_int \<lfloor>x\<rfloor> \<le> 1 / 2
   \<or> roundTiesToEven x = \<lfloor>x\<rfloor> + 1 \<and> 1 / 2 \<le> x - of_int \<lfloor>x\<rfloor>"
  by (simp add: roundTiesToEven_def Let_def)

lemma roundTiesToEven_error: "\<bar>of_int (roundTiesToEven x) - x\<bar> \<le> 1 / 2"
proof -
  have "of_int \<lfloor>x\<rfloor> \<le> x" "x < of_int \<lfloor>x\<rfloor> + 1"
    by linarith+
  then show ?thesis
    using roundTiesToEven_cases [of x] by auto
qed

lemma roundTiesToEven_mono:
  assumes "x \<le> y"
  shows "roundTiesToEven x \<le> roundTiesToEven y"
proof (cases "\<lfloor>x\<rfloor> = \<lfloor>y\<rfloor>")
  case True
  then show ?thesis
    using assms by (auto simp add: roundTiesToEven_def Let_def)
next
  case False
  then have "\<lfloor>x\<rfloor> + 1 \<le> \<lfloor>y\<rfloor>"
    using floor_mono [OF assms] by simp
  then show ?thesis
    using roundTiesToEven_cases [of x] roundTiesToEven_cases [of y] by auto
qed

lemma round_double_pos:
  "0 < x \<Longrightarrow>
     round_double x = of_int (roundTiesToEven (x / 2 powi ulp_exponent x)) * 2 powi ulp_exponent x"
  by (simp add: round_double_def Let_def)

lemma ulp_exponent_pos: "0 < x \<Longrightarrow> ulp_exponent x = max (ilog2 x - 52) (- 1074)"
  by (simp add: ulp_exponent_def)

lemma round_double_mono_pos:
  assumes "0 < x" and "x \<le> y"
  shows "round_double x \<le> round_double y"
proof -
  have y: "0 < y" using assms by simp
  define ex where "ex = ulp_exponent x"
  define ey where "ey = ulp_exponent y"
  have rx: "round_double x = of_int (roundTiesToEven (x / 2 powi ex)) * 2 powi ex"
    unfolding ex_def using assms(1) by (rule round_double_pos)
  have ry: "round_double y = of_int (roundTiesToEven (y / 2 powi ey)) * 2 powi ey"
    unfolding ey_def using y by (rule round_double_pos)
  have ex: "ex = max (ilog2 x - 52) (- 1074)"
    unfolding ex_def using assms(1) by (rule ulp_exponent_pos)
  have ey: "ey = max (ilog2 y - 52) (- 1074)"
    unfolding ey_def using y by (rule ulp_exponent_pos)
  have le: "ex \<le> ey"
    using ilog2_mono [OF assms] unfolding ex ey by simp
  show ?thesis
  proof (cases "ex = ey")
    case True
    have "x / 2 powi ey \<le> y / 2 powi ey"
      using assms(2) by (simp add: divide_right_mono two_powi_pos less_imp_le)
    then have "roundTiesToEven (x / 2 powi ey) \<le> roundTiesToEven (y / 2 powi ey)"
      by (rule roundTiesToEven_mono)
    then have "(of_int (roundTiesToEven (x / 2 powi ey)) :: rat) \<le> of_int (roundTiesToEven (y / 2 powi ey))"
      by (simp only: of_int_le_iff)
    then show ?thesis
      unfolding rx ry True
      by (rule mult_right_mono) (simp add: two_powi_pos less_imp_le)
  next
    case False
    then have lt: "ex + 1 \<le> ey" using le by simp
    then have eyl: "ey = ilog2 y - 52" unfolding ex ey by simp
    have "2 powi (ey + 52) \<le> y"
      using ilog2_bounds(1) [OF y] unfolding eyl by simp
    then have "2 powi 52 * 2 powi ey \<le> y"
      by (simp add: power_int_add mult.commute)
    then have "of_int (2 ^ 52) \<le> y / 2 powi ey"
      by (simp add: pos_le_divide_eq two_powi_pos)
    then have "roundTiesToEven (of_int (2 ^ 52)) \<le> roundTiesToEven (y / 2 powi ey)"
      by (rule roundTiesToEven_mono)
    then have "(of_int (2 ^ 52) :: rat) \<le> of_int (roundTiesToEven (y / 2 powi ey))"
      unfolding roundTiesToEven_of_int by (simp only: of_int_le_iff)
    then have "of_int (2 ^ 52) * 2 powi ey \<le> round_double y"
      unfolding ry by (rule mult_right_mono) (simp add: two_powi_pos less_imp_le)
    then have lo: "2 ^ 52 * 2 powi ey \<le> round_double y" by simp
    have "ilog2 x + 1 \<le> ex + 53" unfolding ex by simp
    then have "x \<le> 2 powi (ex + 53)"
      using ilog2_bounds(2) [OF assms(1)] two_powi_le [of "ilog2 x + 1" "ex + 53"] by simp
    then have "x \<le> 2 powi 53 * 2 powi ex"
      by (simp add: power_int_add mult.commute)
    then have "x / 2 powi ex \<le> of_int (2 ^ 53)"
      by (simp add: pos_divide_le_eq two_powi_pos)
    then have "roundTiesToEven (x / 2 powi ex) \<le> roundTiesToEven (of_int (2 ^ 53))"
      by (rule roundTiesToEven_mono)
    then have "(of_int (roundTiesToEven (x / 2 powi ex)) :: rat) \<le> of_int (2 ^ 53)"
      unfolding roundTiesToEven_of_int by (simp only: of_int_le_iff)
    then have "round_double x \<le> of_int (2 ^ 53) * 2 powi ex"
      unfolding rx by (rule mult_right_mono) (simp add: two_powi_pos less_imp_le)
    then have "round_double x \<le> 2 ^ 52 * 2 powi (ex + 1)"
      by (simp add: two_powi_Suc)
    also have "\<dots> \<le> 2 ^ 52 * 2 powi ey"
      using two_powi_le [OF lt] by simp
    finally show ?thesis using lo by simp
  qed
qed

lemma round_double_zero: "round_double 0 = 0"
  by (simp add: round_double_def)

lemma round_double_nonneg:
  assumes "0 \<le> x"
  shows "0 \<le> round_double x"
proof (cases "x = 0")
  case True
  then show ?thesis by (simp add: round_double_zero)
next
  case False
  then have x: "0 < x" using assms by simp
  have "0 \<le> x / 2 powi ulp_exponent x"
    using x by (simp add: two_powi_pos less_imp_le)
  then have "roundTiesToEven 0 \<le> roundTiesToEven (x / 2 powi ulp_exponent x)"
    by (rule roundTiesToEven_mono)
  then have "0 \<le> roundTiesToEven (x / 2 powi ulp_exponent x)"
    using roundTiesToEven_of_int [of 0] by simp
  then show ?thesis
    unfolding round_double_pos [OF x] by (simp add: two_powi_pos less_imp_le)
qed

lemma round_double_mono:
  assumes "0 \<le> x" and "x \<le> y"
  shows "round_double x \<le> round_double y"
proof (cases "x = 0")
  case True
  then show ?thesis
    using assms round_double_nonneg [of y] by (simp add: round_double_zero)
next
  case False
  then show ?thesis
    using assms by (intro round_double_mono_pos) simp_all
qed

lemma round_double_error:
  assumes "0 < x" and "x < 2 powi p" and "- 1021 \<le> p"
  shows "\<bar>round_double x - x\<bar> \<le> 2 powi (p - 54)"
proof -
  define e where "e = ulp_exponent x"
  have "ilog2 x < p" using assms(1,2) by (rule ilog2_less)
  then have e: "e - 1 \<le> p - 54"
    unfolding e_def ulp_exponent_pos [OF assms(1)] using assms(3) by simp
  have "round_double x - x = (of_int (roundTiesToEven (x / 2 powi e)) - x / 2 powi e) * 2 powi e"
    unfolding e_def round_double_pos [OF assms(1)]
    using two_powi_pos [of "ulp_exponent x"] by (simp add: field_simps)
  then have "\<bar>round_double x - x\<bar> = \<bar>of_int (roundTiesToEven (x / 2 powi e)) - x / 2 powi e\<bar> * 2 powi e"
    using two_powi_pos [of e] by (simp add: abs_mult)
  also have "\<dots> \<le> 1 / 2 * 2 powi e"
    using roundTiesToEven_error [of "x / 2 powi e"] two_powi_pos [of e]
    by (intro mult_right_mono) simp_all
  also have "\<dots> = 2 powi (e - 1)"
    by (simp add: power_int_diff)
  also have "\<dots> \<le> 2 powi (p - 54)"
    using e by (rule two_powi_le)
  finally show ?thesis .
qed

lemma round_double_exact:
  assumes "\<bar>m\<bar> < 2 ^ 53" and "- 1074 \<le> e"
  shows "round_double (of_int m * 2 powi e) = of_int m * 2 powi e"
proof (cases "m = 0")
  case True
  then show ?thesis by (simp add: round_double_zero)
next
  case False
  define x :: rat where "x = of_int m * 2 powi e"
  define u where "u = ulp_exponent x"
  have ax: "\<bar>x\<bar> = of_int \<bar>m\<bar> * 2 powi e"
    unfolding x_def using two_powi_pos [of e] by (simp add: abs_mult)
  have pos: "0 < \<bar>x\<bar>"
    unfolding ax using False two_powi_pos [of e] by simp
  have "(of_int \<bar>m\<bar> :: rat) < of_int (2 ^ 53)"
    using assms(1) by (simp only: of_int_less_iff)
  then have "\<bar>x\<bar> < 2 powi 53 * 2 powi e"
    unfolding ax using two_powi_pos [of e] by simp
  then have "\<bar>x\<bar> < 2 powi (e + 53)"
    by (simp add: power_int_add mult.commute)
  then have "ilog2 \<bar>x\<bar> < e + 53"
    using pos by (intro ilog2_less)
  then have u: "u \<le> e"
    unfolding u_def ulp_exponent_def using assms(2) by simp
  have "x / 2 powi u = of_int m * 2 powi (e - u)"
    unfolding x_def by (simp add: power_int_diff)
  also have "\<dots> = of_int (m * 2 ^ nat (e - u))"
    using u by (simp add: power_int_nonneg_exp)
  finally have q: "x / 2 powi u = of_int (m * 2 ^ nat (e - u))" .
  have "x \<noteq> 0" using pos by simp
  then have "round_double x = of_int (roundTiesToEven (x / 2 powi u)) * 2 powi u"
    unfolding u_def by (simp add: round_double_def Let_def)
  also have "\<dots> = x / 2 powi u * 2 powi u"
    unfolding q roundTiesToEven_of_int ..
  also have "\<dots> = x"
    using two_powi_pos [of u] by simp
  finally show ?thesis unfolding x_def .
qed

lemma round_double_of_int:
  assumes "\<bar>n\<bar> \<le> 2 ^ 53"
  shows "round_double (of_int n) = of_int n"
proof (cases "\<bar>n\<bar> < 2 ^ 53")
  case True
  then show ?thesis
    using round_double_exact [of n 0] by simp
next
  case False
  then have "n = 2 ^ 53 \<or> n = - (2 ^ 53)"
    using assms by auto
  then show ?thesis
    using round_double_exact [of "2 ^ 52" 1] round_double_exact [of "- (2 ^ 52)" 1]
    by auto
qed

text \<open>Below \<open>2^-1022\<close> the numbers are the multiples of \<open>2^-1074\<close>.\<close>

lemma round_double_subnormal:
  assumes "0 < x" and "x < 2 powi (- 1022)"
  shows "round_double x = of_int (roundTiesToEven (x * 2 ^ 1074)) / 2 ^ 1074"
proof -
  have "ilog2 x < - 1022" using assms by (rule ilog2_less)
  then have "ulp_exponent x = - 1074"
    unfolding ulp_exponent_pos [OF assms(1)] by simp
  then show ?thesis
    unfolding round_double_pos [OF assms(1)]
    by (simp add: power_int_def power_one_over field_simps)
qed

text \<open>
  The rounding on familiar values: the number written 0.1; the sum 0.1 + 0.2, which is
  0.30000000000000004; and 57 / 100 * 100, which is 56.99999999999999.
\<close>

lemma round_double_examples:
  "round_double (1 / 10) = 3602879701896397 / 36028797018963968"
  "js_add (round_double (1 / 10)) (round_double (2 / 10)) = 1351079888211149 / 4503599627370496"
  "js_mul (js_div 57 100) 100 = 8022036836253695 / 140737488355328"
  by code_simp+

lemma round_double_error0:
  assumes "0 \<le> x" and "x < 2 powi p" and "- 1021 \<le> p"
  shows "\<bar>round_double x - x\<bar> \<le> 2 powi (p - 54)"
proof (cases "x = 0")
  case True
  then show ?thesis
    using two_powi_pos [of "p - 54"] by (simp add: round_double_zero)
next
  case False
  then show ?thesis
    using assms by (intro round_double_error) simp_all
qed

lemma round_double_of_nat: "n \<le> 2 ^ 53 \<Longrightarrow> round_double (of_nat n) = of_nat n"
  using round_double_of_int [of "int n"] by simp

lemma round_double_one: "round_double 1 = 1"
  using round_double_of_int [of 1] by simp

lemma js_add_ge_one: "0 \<le> n \<Longrightarrow> 1 \<le> js_add n 1"
  unfolding js_add_def using round_double_mono [of 1 "n + 1"] by (simp add: round_double_one)

lemma js_add_count: "k < 2 ^ 53 \<Longrightarrow> js_add (of_nat k) 1 = of_nat (Suc k)"
  unfolding js_add_def using round_double_of_nat [of "Suc k"] by (simp add: add.commute)

lemma js_add_saturated: "js_add (2 ^ 53) 1 = 2 ^ 53"
  by code_simp

lemma Math_floor_mono: "x \<le> y \<Longrightarrow> Math_floor x \<le> Math_floor y"
  unfolding Math_floor_def by (simp add: floor_mono)

lemma percentComplete_mono:
  assumes "0 \<le> nFiles this" and "0 \<le> countChecked this"
    and "countChecked this \<le> countChecked this'" and "nFiles this' = nFiles this"
  shows "percentComplete this \<le> percentComplete this'"
proof -
  define d where "d = js_add (nFiles this) 1"
  have d: "0 < d"
    using js_add_ge_one [OF assms(1)] unfolding d_def by simp
  have "countChecked this / d \<le> countChecked this' / d"
    using assms(3) d by (simp add: divide_right_mono)
  moreover have "0 \<le> countChecked this / d"
    using assms(2) d by simp
  ultimately have q: "js_div (countChecked this) d \<le> js_div (countChecked this') d"
    unfolding js_div_def by (intro round_double_mono)
  have "0 \<le> js_div (countChecked this) d"
    unfolding js_div_def using assms(2) d by (intro round_double_nonneg) simp
  then have "js_mul (js_div (countChecked this) d) 100 \<le> js_mul (js_div (countChecked this') d) 100"
    unfolding js_mul_def using q by (intro round_double_mono) simp_all
  then show ?thesis
    unfolding percentComplete_def assms(4) d_def by (rule Math_floor_mono)
qed

section \<open>One step of the listener\<close>

lemma checkFile_idle:
  "progress this = Undefined \<or> progress this = Null \<Longrightarrow> checkFile fileName this w = (this, w)"
  by (auto simp add: checkFile_def)

lemma checkFile_active:
  "progress this = Object h \<Longrightarrow>
     checkFile fileName this w =
       (this\<lparr>countChecked := js_add (countChecked this) 1\<rparr>,
        w @ [Report h fileName
               (js_sub (percentComplete (this\<lparr>countChecked := js_add (countChecked this) 1\<rparr>))
                  (percentComplete this))])"
  by (simp add: checkFile_def Let_def)

lemma js_add_counter:
  assumes "k \<le> 2 ^ 53"
  shows "js_add (of_nat k) 1 = of_nat (min (Suc k) (2 ^ 53))"
proof (cases "k < 2 ^ 53")
  case True
  then show ?thesis by (simp add: js_add_count min_def)
next
  case False
  then have "k = 2 ^ 53" using assms by simp
  then show ?thesis using js_add_saturated by (simp add: min_def)
qed

lemma percentComplete_nonneg:
  assumes "0 \<le> nFiles this" and "0 \<le> countChecked this"
  shows "0 \<le> percentComplete this"
proof -
  have d: "0 < js_add (nFiles this) 1"
    using js_add_ge_one [OF assms(1)] by simp
  have "0 \<le> js_div (countChecked this) (js_add (nFiles this) 1)"
    unfolding js_div_def using assms(2) d by (intro round_double_nonneg) simp
  then have "0 \<le> js_mul (js_div (countChecked this) (js_add (nFiles this) 1)) 100"
    unfolding js_mul_def by (intro round_double_nonneg) simp
  then show ?thesis
    unfolding percentComplete_def Math_floor_def by simp
qed

text \<open>The difference of two consecutive percentages is small, so the subtraction is exact.\<close>

lemma percentComplete_step:
  assumes n: "0 \<le> nFiles this"
    and c: "0 \<le> countChecked this" "countChecked this \<le> c'" "c' \<le> countChecked this + 1"
      "c' \<le> 2 ^ 53"
  shows "percentComplete (this\<lparr>countChecked := c'\<rparr>) - percentComplete this \<le> 429"
proof -
  define d where "d = js_add (nFiles this) 1"
  define x where "x = countChecked this / d"
  define x' where "x' = c' / d"
  define q where "q = round_double x"
  define q' where "q' = round_double x'"
  define r where "r = round_double (q * 100)"
  define r' where "r' = round_double (q' * 100)"
  have d: "1 \<le> d"
    unfolding d_def using n by (rule js_add_ge_one)
  have x0: "0 \<le> x" unfolding x_def using c(1) d by simp
  have x'0: "0 \<le> x'" unfolding x'_def using c(1,2) d by simp
  have "x' - x = (c' - countChecked this) / d"
    unfolding x_def x'_def by (simp add: diff_divide_distrib)
  also have "\<dots> \<le> 1 / d"
    using c(3) d by (intro divide_right_mono) simp_all
  also have "\<dots> \<le> 1"
    using d by simp
  finally have xx: "x' \<le> x + 1" by simp
  have "x' \<le> c' / 1"
    unfolding x'_def using d c(1,2) by (intro divide_left_mono) simp_all
  then have x'b: "x' \<le> 2 ^ 53" using c(4) by simp
  have "x \<le> countChecked this / 1"
    unfolding x_def using d c(1) by (intro divide_left_mono) simp_all
  then have xb: "x \<le> 2 ^ 53" using c(2,4) by simp
  have p54: "(2::rat) ^ 53 < 2 powi 54" by (simp add: power_int_def)
  have eq: "\<bar>q - x\<bar> \<le> 1"
    unfolding q_def using round_double_error0 [of x 54] x0 xb p54 by simp
  have eq': "\<bar>q' - x'\<bar> \<le> 1"
    unfolding q'_def using round_double_error0 [of x' 54] x'0 x'b p54 by simp
  have q0: "0 \<le> q" unfolding q_def using x0 by (rule round_double_nonneg)
  have q'0: "0 \<le> q'" unfolding q'_def using x'0 by (rule round_double_nonneg)
  have qb: "q \<le> 2 ^ 53 + 1" using eq xb by linarith
  have q'b: "q' \<le> 2 ^ 53 + 1" using eq' x'b by linarith
  have qq: "q' - q \<le> 3" using eq eq' xx by linarith
  have p60: "((2::rat) ^ 53 + 1) * 100 < 2 powi 60" by (simp add: power_int_def)
  have er: "\<bar>r - q * 100\<bar> \<le> 64"
    unfolding r_def using round_double_error0 [of "q * 100" 60] q0 qb p60 by simp
  have er': "\<bar>r' - q' * 100\<bar> \<le> 64"
    unfolding r'_def using round_double_error0 [of "q' * 100" 60] q'0 q'b p60 by simp
  have rr: "r' - r \<le> 428" using er er' qq by linarith
  have "of_int \<lfloor>r'\<rfloor> \<le> r'" "r < of_int \<lfloor>r\<rfloor> + 1" by linarith+
  then have "(of_int \<lfloor>r'\<rfloor> :: rat) - of_int \<lfloor>r\<rfloor> \<le> 429" using rr by linarith
  then show ?thesis
    unfolding percentComplete_def Math_floor_def js_mul_def js_div_def
      r_def r'_def q_def q'_def x_def x'_def d_def by simp
qed

lemma js_sub_percent:
  assumes n: "0 \<le> nFiles this"
    and c: "0 \<le> countChecked this" "countChecked this \<le> c'" "c' \<le> countChecked this + 1"
      "c' \<le> 2 ^ 53"
  shows "js_sub (percentComplete (this\<lparr>countChecked := c'\<rparr>)) (percentComplete this)
           = percentComplete (this\<lparr>countChecked := c'\<rparr>) - percentComplete this"
proof -
  obtain a where a: "percentComplete this = of_int a"
    unfolding percentComplete_def Math_floor_def by blast
  obtain b where b: "percentComplete (this\<lparr>countChecked := c'\<rparr>) = of_int b"
    unfolding percentComplete_def Math_floor_def by blast
  have "percentComplete this \<le> percentComplete (this\<lparr>countChecked := c'\<rparr>)"
    using n c by (intro percentComplete_mono) simp_all
  then have lo: "0 \<le> b - a" unfolding a b by simp
  have "(of_int (b - a) :: rat) \<le> 429"
    using percentComplete_step [OF n c] unfolding a b by simp
  then have "b - a \<le> 429" by linarith
  then have "\<bar>b - a\<bar> \<le> 2 ^ 53" using lo by simp
  then have "round_double (of_int (b - a)) = of_int (b - a)"
    by (rule round_double_of_int)
  then show ?thesis
    unfolding js_sub_def a b by simp
qed

section \<open>A run: a start and its increments\<close>

lemma startCheckFiles_eq:
  "startCheckFiles names n this w =
     (this\<lparr>countChecked := 0, nFiles := of_nat n, progress := Object (fresh w),
           resolve := Object (fresh w)\<rparr>,
      w @ [WithProgress (fresh w) (title names n)])"
  by (simp add: startCheckFiles_def Let_def)

lemma checkFile_running:
  assumes "progress this = Object h" and "countChecked this = of_nat k" and "k \<le> 2 ^ 53"
    and "0 \<le> nFiles this"
  shows "checkFile fileName this w =
     (this\<lparr>countChecked := of_nat (min (Suc k) (2 ^ 53))\<rparr>,
      w @ [Report h fileName
             (percentComplete (this\<lparr>countChecked := of_nat (min (Suc k) (2 ^ 53))\<rparr>)
                - percentComplete this)])"
proof -
  define c' :: rat where "c' = of_nat (min (Suc k) (2 ^ 53))"
  have add: "js_add (countChecked this) 1 = c'"
    unfolding c'_def assms(2) using assms(3) by (rule js_add_counter)
  have "min (Suc k) (2 ^ 53) \<le> (2 ^ 53 :: nat)"
    by simp
  then have "(of_nat (min (Suc k) (2 ^ 53)) :: rat) \<le> of_nat (2 ^ 53)"
    by (simp only: of_nat_le_iff)
  then have c1: "c' \<le> 2 ^ 53" unfolding c'_def by simp
  have "k \<le> min (Suc k) (2 ^ 53)"
    using assms(3) by simp
  then have "(of_nat k :: rat) \<le> of_nat (min (Suc k) (2 ^ 53))"
    by (simp only: of_nat_le_iff)
  then have c2: "countChecked this \<le> c'" unfolding c'_def assms(2) .
  have "min (Suc k) (2 ^ 53) \<le> Suc k"
    by simp
  then have "(of_nat (min (Suc k) (2 ^ 53)) :: rat) \<le> of_nat (Suc k)"
    by (simp only: of_nat_le_iff)
  then have c3: "c' \<le> countChecked this + 1" unfolding c'_def assms(2) by simp
  have c0: "0 \<le> countChecked this" unfolding assms(2) by simp
  have "js_sub (percentComplete (this\<lparr>countChecked := c'\<rparr>)) (percentComplete this)
          = percentComplete (this\<lparr>countChecked := c'\<rparr>) - percentComplete this"
    using assms(4) c0 c2 c3 c1 by (rule js_sub_percent)
  then show ?thesis
    unfolding checkFile_active [OF assms(1)] add c'_def by simp
qed

lemma checkFiles_running:
  assumes "progress this = Object h" and "countChecked this = of_nat k" and "k \<le> 2 ^ 53"
    and "0 \<le> nFiles this"
  shows "fst (checkFiles fs this w) = this\<lparr>countChecked := of_nat (min (k + length fs) (2 ^ 53))\<rparr>"
  using assms
proof (induction fs arbitrary: this w k)
  case Nil
  then show ?case by simp
next
  case (Cons f fs)
  define k' :: nat where "k' = min (Suc k) (2 ^ 53)"
  define this' where "this' = this\<lparr>countChecked := of_nat k'\<rparr>"
  have step: "checkFile f this w =
      (this', w @ [Report h f (percentComplete this' - percentComplete this)])"
    unfolding this'_def k'_def using Cons.prems by (rule checkFile_running)
  have "fst (checkFiles fs this' (w @ [Report h f (percentComplete this' - percentComplete this)]))
          = this'\<lparr>countChecked := of_nat (min (k' + length fs) (2 ^ 53))\<rparr>"
    using Cons.prems by (intro Cons.IH) (simp_all add: this'_def k'_def)
  moreover have "min (k' + length fs) (2 ^ 53) = min (k + length (f # fs)) (2 ^ 53)"
    unfolding k'_def by simp
  ultimately show ?case
    unfolding checkFiles.simps step by (simp add: this'_def)
qed

lemma start_then_state:
  "fst (start_then names n fs this w) =
     this\<lparr>countChecked := of_nat (min (length fs) (2 ^ 53)), nFiles := of_nat n,
          progress := Object (fresh w), resolve := Object (fresh w)\<rparr>"
proof -
  define this' where "this' = this\<lparr>countChecked := 0, nFiles := of_nat n,
    progress := Object (fresh w), resolve := Object (fresh w)\<rparr>"
  have "fst (checkFiles fs this' (w @ [WithProgress (fresh w) (title names n)]))
          = this'\<lparr>countChecked := of_nat (min (0 + length fs) (2 ^ 53))\<rparr>"
    by (rule checkFiles_running [where h = "fresh w"]) (simp_all add: this'_def)
  then show ?thesis
    unfolding start_then_def startCheckFiles_eq by (simp add: this'_def)
qed

lemma percentComplete_start_then:
  "percentComplete (fst (start_then names n fs this w)) =
     Math_floor (js_mul (js_div (of_nat (min (length fs) (2 ^ 53))) (js_add (of_nat n) 1)) 100)"
  unfolding start_then_state by (simp add: percentComplete_def)

lemma start_then_mono:
  "percentComplete (fst (start_then names n (take j fs) this w))
     \<le> percentComplete (fst (start_then names n fs this w))"
proof -
  have "min (length (take j fs)) (2 ^ 53) \<le> min (length fs) ((2 ^ 53)::nat)"
    by simp
  then have "(of_nat (min (length (take j fs)) (2 ^ 53)) :: rat) \<le> of_nat (min (length fs) (2 ^ 53))"
    by (simp only: of_nat_le_iff)
  then show ?thesis
    unfolding start_then_state by (intro percentComplete_mono) simp_all
qed

lemma floor_close:
  fixes r s :: rat
  assumes "\<bar>r - s\<bar> < 1"
  shows "\<bar>\<lfloor>r\<rfloor> - \<lfloor>s\<rfloor>\<bar> \<le> 1"
proof -
  have a: "r - s < 1" "s - r < 1"
    using assms by (simp_all add: abs_less_iff)
  have "of_int \<lfloor>r\<rfloor> - of_int \<lfloor>s\<rfloor> < (2::rat)"
    using a by linarith
  then have "(of_int (\<lfloor>r\<rfloor> - \<lfloor>s\<rfloor>) :: rat) < of_int 2"
    by simp
  then have up: "\<lfloor>r\<rfloor> - \<lfloor>s\<rfloor> < 2"
    by (simp only: of_int_less_iff)
  have "of_int \<lfloor>s\<rfloor> - of_int \<lfloor>r\<rfloor> < (2::rat)"
    using a by linarith
  then have "(of_int (\<lfloor>s\<rfloor> - \<lfloor>r\<rfloor>) :: rat) < of_int 2"
    by simp
  then have "\<lfloor>s\<rfloor> - \<lfloor>r\<rfloor> < 2"
    by (simp only: of_int_less_iff)
  then show ?thesis using up by simp
qed

lemma two_powi_neg54: "(2::rat) powi (- 54) = 1 / 18014398509481984"
  by (simp add: power_int_def power_one_over)

lemma two_powi_neg47: "(2::rat) powi (- 47) = 1 / 140737488355328"
  by (simp add: power_int_def power_one_over)

text \<open>Below \<open>2^53\<close> the counter and the divisor are exact.\<close>

lemma percentComplete_exact_args:
  assumes "T < 2 ^ 53" and "length fs \<le> 2 ^ 53"
  shows "percentComplete (fst (start_then names T fs this w)) =
     Math_floor (js_mul (js_div (of_nat (length fs)) (of_nat T + 1)) 100)"
proof -
  have "js_add (of_nat T) 1 = of_nat (Suc T)"
    using assms(1) by (rule js_add_count)
  then show ?thesis
    unfolding percentComplete_start_then using assms(2) by (simp add: min_def add.commute)
qed

lemma percent_error_bound:
  assumes "k \<le> T"
  shows "\<bar>js_mul (js_div (of_nat k) (of_nat T + 1)) 100 - of_nat k / (of_nat T + 1) * 100\<bar>
           \<le> 57 / 2 ^ 52"
proof -
  define x :: rat where "x = of_nat k / (of_nat T + 1)"
  define q where "q = round_double x"
  define r where "r = round_double (q * 100)"
  have x0: "0 \<le> x" unfolding x_def by simp
  have "(of_nat k :: rat) < of_nat T + 1"
    using assms by (simp add: of_nat_le_iff [symmetric, where 'a = rat] del: of_nat_le_iff)
  then have x1: "x < 2 powi 0" unfolding x_def by simp
  have eq: "\<bar>q - x\<bar> \<le> 2 powi (- 54)"
    unfolding q_def using round_double_error0 [OF x0 x1] by simp
  have q0: "0 \<le> q" unfolding q_def using x0 by (rule round_double_nonneg)
  have x1': "x < 1" using x1 by simp
  have "q * 100 < 128"
    using eq x1' unfolding two_powi_neg54 by linarith
  then have q1: "q * 100 < 2 powi 7" by (simp add: power_int_def)
  have er: "\<bar>r - q * 100\<bar> \<le> 2 powi (- 47)"
    unfolding r_def using round_double_error0 [of "q * 100" 7] q0 q1 by simp
  have "\<bar>r - x * 100\<bar> \<le> 57 / 4503599627370496"
    using eq er unfolding two_powi_neg54 two_powi_neg47 by linarith
  then show ?thesis
    unfolding r_def q_def x_def js_mul_def js_div_def by simp
qed

lemma percent_error:
  assumes "k \<le> T"
  shows "\<bar>js_mul (js_div (of_nat k) (of_nat T + 1)) 100 - of_nat k / (of_nat T + 1) * 100\<bar> < 1"
  using percent_error_bound [OF assms] by simp

text \<open>
  Below an integer, a fraction with the denominator \<open>d\<close> keeps the distance \<open>1 / d\<close>.
\<close>

lemma floor_fraction_gap:
  fixes a d :: nat
  assumes "0 < d"
  shows "(of_nat a :: rat) / of_nat d \<le> of_int \<lfloor>(of_nat a :: rat) / of_nat d\<rfloor> + 1 - 1 / of_nat d"
proof -
  define n where "n = \<lfloor>(of_nat a :: rat) / of_nat d\<rfloor>"
  have d: "(0::rat) < of_nat d" using assms by simp
  have "(of_nat a :: rat) / of_nat d < of_int n + 1"
    unfolding n_def by linarith
  then have "(of_nat a :: rat) < (of_int n + 1) * of_nat d"
    using d by (simp add: pos_divide_less_eq)
  then have "(of_int (int a) :: rat) < of_int ((n + 1) * int d)"
    by simp
  then have "int a < (n + 1) * int d"
    by (simp only: of_int_less_iff)
  then have "int a + 1 \<le> (n + 1) * int d"
    by simp
  then have "(of_int (int a + 1) :: rat) \<le> of_int ((n + 1) * int d)"
    by (simp only: of_int_le_iff)
  then have "(of_nat a :: rat) + 1 \<le> (of_int n + 1) * of_nat d"
    by simp
  then have "((of_nat a :: rat) + 1) / of_nat d \<le> of_int n + 1"
    using d by (simp add: pos_divide_le_eq)
  then show ?thesis
    unfolding n_def [symmetric] by (simp add: add_divide_distrib)
qed

lemma percent_not_above:
  assumes "T < 2 ^ 46" and "k \<le> T"
  shows "Math_floor (js_mul (js_div (of_nat k) (of_nat T + 1)) 100) \<le> of_int (spec_percent k T)"
proof -
  define r where "r = js_mul (js_div (of_nat k) (of_nat T + 1)) 100"
  define s :: rat where "s = of_nat (100 * k) / of_nat (Suc T)"
  have s: "s = of_nat k / (of_nat T + 1) * 100"
    unfolding s_def by (simp add: add.commute)
  have "Suc T \<le> 2 ^ 46" using assms(1) by simp
  then have "(of_nat (Suc T) :: rat) \<le> of_nat (2 ^ 46)"
    by (simp only: of_nat_le_iff)
  then have "(of_nat (Suc T) :: rat) \<le> 70368744177664" by simp
  moreover have pos: "(0::rat) < of_nat (Suc T)" by simp
  ultimately have "1 / 70368744177664 \<le> 1 / (of_nat (Suc T) :: rat)"
    by (intro divide_left_mono) simp_all
  moreover have "s \<le> of_int \<lfloor>s\<rfloor> + 1 - 1 / of_nat (Suc T)"
    unfolding s_def by (rule floor_fraction_gap) simp
  moreover have "\<bar>r - s\<bar> \<le> 57 / 4503599627370496"
    unfolding r_def s using percent_error_bound [OF assms(2)] by simp
  ultimately have "r < of_int \<lfloor>s\<rfloor> + 1"
    by linarith
  then have "r < of_int (\<lfloor>s\<rfloor> + 1)"
    by simp
  then have "\<lfloor>r\<rfloor> < \<lfloor>s\<rfloor> + 1"
    by (simp only: floor_less_iff)
  then have "\<lfloor>r\<rfloor> \<le> \<lfloor>s\<rfloor>" by simp
  then have "(of_int \<lfloor>r\<rfloor> :: rat) \<le> of_int \<lfloor>s\<rfloor>"
    by (simp only: of_int_le_iff)
  then show ?thesis
    unfolding Math_floor_def spec_percent_def r_def s .
qed

lemma percent_57_of_100: "Math_floor (js_mul (js_div 57 100) 100) = 56"
  by code_simp

lemma percent_quarters:
  "Math_floor (js_mul (js_div 0 4) 100) = 0"
  "Math_floor (js_mul (js_div 1 4) 100) = 25"
  "Math_floor (js_mul (js_div 2 4) 100) = 50"
  "Math_floor (js_mul (js_div 3 4) 100) = 75"
  by code_simp+

lemma below_one:
  assumes "T < 2 ^ 53"
  shows "(of_nat T :: rat) / (of_nat T + 1) \<le> 1 - 1 / 2 ^ 53"
proof -
  define d :: rat where "d = of_nat T + 1"
  have "Suc T \<le> 2 ^ 53"
    using assms by simp
  then have "(of_nat (Suc T) :: rat) \<le> of_nat (2 ^ 53)"
    by (simp only: of_nat_le_iff)
  then have d: "d \<le> 2 ^ 53" unfolding d_def by simp
  have d0: "0 < d" unfolding d_def by (simp add: add_pos_nonneg)
  have "1 / 2 ^ 53 \<le> 1 / d"
    using d d0 by (intro divide_left_mono) simp_all
  moreover have "(d - 1) / d = 1 - 1 / d"
    using d0 by (simp add: diff_divide_distrib)
  ultimately show ?thesis unfolding d_def by simp
qed

lemma increments_append: "increments (u @ v) = increments u @ increments v"
  by (induction u rule: increments.induct) simp_all

lemma increments_reports: "increments (map (\<lambda>i. Report h (m i) (d i)) xs) = map d xs"
  by (induction xs) simp_all

lemma sum_list_telescope:
  fixes P :: "nat \<Rightarrow> rat"
  shows "sum_list (map (\<lambda>i. P (Suc i) - P i) [0..<n]) = P n - P 0"
  by (induction n) simp_all

lemma checkFiles_window:
  assumes "progress this = Object h" and "countChecked this = of_nat k" and "k \<le> 2 ^ 53"
    and "0 \<le> nFiles this"
  shows "snd (checkFiles fs this w) =
     w @ map (\<lambda>i. Report h (fs ! i)
                (percentComplete (fst (checkFiles (take (Suc i) fs) this w))
                   - percentComplete (fst (checkFiles (take i fs) this w))))
           [0..<length fs]"
  using assms
proof (induction fs arbitrary: this w k)
  case Nil
  then show ?case by simp
next
  case (Cons f fs)
  define k' :: nat where "k' = min (Suc k) (2 ^ 53)"
  define this' where "this' = this\<lparr>countChecked := of_nat k'\<rparr>"
  define w' where "w' = w @ [Report h f (percentComplete this' - percentComplete this)]"
  have step: "checkFile f this w = (this', w')"
    unfolding this'_def k'_def w'_def using Cons.prems by (rule checkFile_running)
  have ih: "snd (checkFiles fs this' w') =
     w' @ map (\<lambda>i. Report h (fs ! i)
                (percentComplete (fst (checkFiles (take (Suc i) fs) this' w'))
                   - percentComplete (fst (checkFiles (take i fs) this' w'))))
           [0..<length fs]"
    using Cons.prems by (intro Cons.IH [where k = k']) (simp_all add: this'_def k'_def)
  have upt: "[0..<length (f # fs)] = 0 # map Suc [0..<length fs]"
    by (simp only: list.size(4) Suc_eq_plus1 [symmetric] add_Suc_right add_0_right
        map_Suc_upt upt_conv_Cons [OF zero_less_Suc])
  have "snd (checkFiles (f # fs) this w) = snd (checkFiles fs this' w')"
    by (simp add: step)
  then show ?case
    unfolding ih upt by (simp add: step w'_def o_def)
qed

lemma start_then_window:
  "snd (start_then names n fs this w) =
     w @ WithProgress (fresh w) (title names n) #
       map (\<lambda>i. Report (fresh w) (fs ! i)
                (percentComplete (fst (start_then names n (take (Suc i) fs) this w))
                   - percentComplete (fst (start_then names n (take i fs) this w))))
           [0..<length fs]"
proof -
  define this' where "this' = this\<lparr>countChecked := 0, nFiles := of_nat n,
    progress := Object (fresh w), resolve := Object (fresh w)\<rparr>"
  have "snd (checkFiles fs this' (w @ [WithProgress (fresh w) (title names n)])) =
     (w @ [WithProgress (fresh w) (title names n)]) @
       map (\<lambda>i. Report (fresh w) (fs ! i)
                (percentComplete (fst (checkFiles (take (Suc i) fs) this'
                    (w @ [WithProgress (fresh w) (title names n)])))
                   - percentComplete (fst (checkFiles (take i fs) this'
                    (w @ [WithProgress (fresh w) (title names n)])))))
           [0..<length fs]"
    by (rule checkFiles_window [where k = 0]) (simp_all add: this'_def)
  then show ?thesis
    unfolding start_then_def startCheckFiles_eq by (simp add: this'_def)
qed

lemma start_then_step_mono:
  "percentComplete (fst (start_then names n (take i fs) this w))
     \<le> percentComplete (fst (start_then names n (take (Suc i) fs) this w))"
  using start_then_mono [of names n i "take (Suc i) fs" this w] by (simp add: min_def)

lemma percent_of_three:
  "percentComplete (fst (start_then checkEvent 3 [] new_progressListener [])) = 0"
  "percentComplete (fst (start_then checkEvent 3 [''a''] new_progressListener [])) = 25"
  "percentComplete (fst (start_then checkEvent 3 [''a'', ''b''] new_progressListener [])) = 50"
  "percentComplete (fst (start_then checkEvent 3 [''a'', ''b'', ''c''] new_progressListener [])) = 75"
  using percent_quarters by (simp_all add: percentComplete_exact_args)

lemma title_checkEvent_3: "title checkEvent 3 = ''Check 3 files''"
  by (simp add: checkEvent_def)

lemma start_then_snoc:
  "snd (start_then names n (fs @ [f]) this w) =
     snd (start_then names n fs this w) @
       [Report (fresh w) f
          (percentComplete (fst (start_then names n (fs @ [f]) this w))
             - percentComplete (fst (start_then names n fs this w)))]"
proof -
  have upt: "[0..<length (fs @ [f])] = [0..<length fs] @ [length fs]"
    by simp
  have pre: "map (\<lambda>i. Report (fresh w) ((fs @ [f]) ! i)
                (percentComplete (fst (start_then names n (take (Suc i) (fs @ [f])) this w))
                   - percentComplete (fst (start_then names n (take i (fs @ [f])) this w))))
           [0..<length fs]
      = map (\<lambda>i. Report (fresh w) (fs ! i)
                (percentComplete (fst (start_then names n (take (Suc i) fs) this w))
                   - percentComplete (fst (start_then names n (take i fs) this w))))
           [0..<length fs]"
    by (rule map_cong) (simp_all add: nth_append)
  show ?thesis
    unfolding start_then_window [of names n "fs @ [f]"] start_then_window [of names n fs]
      upt map_append pre
    by simp
qed

section \<open>The activated extension\<close>

lemma objects_activated: "objects activated = [new_progressListener, new_progressListener]"
  by (simp add: activated_def createProgressListeners_def createProgressListener_def Let_def)

lemma window_activated: "window activated = []"
  by (simp add: activated_def createProgressListeners_def createProgressListener_def Let_def)

lemma handlers_activated:
  "handlers activated =
     [''fsharp/startCheckFiles'' \<mapsto> OnStart 0 checkEvent,
      ''fsharp/checkFile'' \<mapsto> OnIncrement 0,
      ''fsharp/endCheckFiles'' \<mapsto> OnEnd 0,
      ''fsharp/startAnalyzeProjects'' \<mapsto> OnStart 1 analyzeEvent,
      ''fsharp/analyzeProject'' \<mapsto> OnIncrement 1,
      ''fsharp/endAnalyzeProjects'' \<mapsto> OnEnd 1]"
  by (simp add: activated_def createProgressListeners_def createProgressListener_def Let_def
      checkEvent_def analyzeEvent_def)

section \<open>The extension under notifications\<close>

lemma opened_append: "opened (u @ v) = opened u @ opened v"
  by (induction u rule: opened.induct) simp_all

lemma fresh_append: "fresh (u @ v) = fresh u + fresh v"
  by (simp add: fresh_def opened_append)

lemma open_surfaces_WithProgress:
  "Resolve h \<notin> set w \<Longrightarrow> open_surfaces (w @ [WithProgress h t]) = open_surfaces w @ [h]"
  by (simp add: open_surfaces_def opened_append)

lemma checkFile_fields:
  "progress (fst (checkFile f this w)) = progress this"
  "resolve (fst (checkFile f this w)) = resolve this"
  "nFiles (fst (checkFile f this w)) = nFiles this"
  by (simp_all add: checkFile_def Let_def split: field.split)

lemma checkFile_window:
  "fresh (snd (checkFile f this w)) = fresh w"
  "(Resolve h \<in> set (snd (checkFile f this w))) = (Resolve h \<in> set w)"
  by (simp_all add: checkFile_def Let_def fresh_def opened_append split: field.split)

text \<open>What a notification does to the extension, handler by handler.\<close>

lemma deliver_None: "handlers ext m = None \<Longrightarrow> deliver m p ext = (Normal, ext)"
  by (simp add: deliver_def)

lemma deliver_OnStart:
  "handlers ext m = Some (OnStart a names) \<Longrightarrow> a < length (objects ext) \<Longrightarrow>
     deliver m (NumberParam n) ext =
       (Normal,
        ext\<lparr>objects := (objects ext)[a := fst (startCheckFiles names n (objects ext ! a) (window ext))],
            window := snd (startCheckFiles names n (objects ext ! a) (window ext))\<rparr>)"
  by (simp add: deliver_def split_beta)

lemma deliver_OnIncrement:
  "handlers ext m = Some (OnIncrement a) \<Longrightarrow> a < length (objects ext) \<Longrightarrow>
     deliver m (StringParam f) ext =
       (Normal,
        ext\<lparr>objects := (objects ext)[a := fst (checkFile f (objects ext ! a) (window ext))],
            window := snd (checkFile f (objects ext ! a) (window ext))\<rparr>)"
  by (simp add: deliver_def split_beta)

lemma deliver_OnEnd:
  "handlers ext m = Some (OnEnd a) \<Longrightarrow> a < length (objects ext) \<Longrightarrow>
     deliver m p ext =
       (fst (endCheckFiles (objects ext ! a) (window ext)),
        ext\<lparr>objects := (objects ext)[a := fst (snd (endCheckFiles (objects ext ! a) (window ext)))],
            window := snd (snd (endCheckFiles (objects ext ! a) (window ext)))\<rparr>)"
  by (simp add: deliver_def split_beta)

lemma deliver_handlers: "handlers (snd (deliver m p ext)) = handlers ext"
  by (simp add: deliver_def split_beta split: option.split handler.split params.split)

lemma deliver_length: "length (objects (snd (deliver m p ext))) = length (objects ext)"
  by (simp add: deliver_def split_beta split: option.split handler.split params.split)

lemma run_wired:
  "handlers (snd (run ms ext)) = handlers ext \<and> length (objects (snd (run ms ext))) = length (objects ext)"
proof (induction ms arbitrary: ext)
  case Nil
  then show ?case by simp
next
  case (Cons m ms)
  obtain name p where m: "m = (name, p)" by (cases m)
  show ?case
    using Cons.IH [of "snd (deliver name p ext)"]
    by (simp add: m split_beta deliver_handlers deliver_length)
qed

lemma handlers_run: "handlers (snd (run ms activated)) = handlers activated"
  using run_wired [of ms activated] by simp

lemma length_objects_run: "length (objects (snd (run ms activated))) = 2"
  using run_wired [of ms activated] by (simp add: objects_activated)


lemma deliver_other:
  assumes "handlers ext m = Some h" and "closed_over h \<noteq> b"
  shows "objects (snd (deliver m p ext)) ! b = objects ext ! b"
  using assms
  by (cases h) (simp_all add: deliver_def split_beta split: params.split)

text \<open>
  Handles are handed out in order: a promise that has been resolved, and a \<^verbatim>\<open>resolve\<close>
  function that a listener stores, belong to a surface that exists.
\<close>

lemma startCheckFiles_window:
  "fresh (snd (startCheckFiles names n this w)) = Suc (fresh w)"
  "(Resolve h \<in> set (snd (startCheckFiles names n this w))) = (Resolve h \<in> set w)"
  "resolve (fst (startCheckFiles names n this w)) = Object (fresh w)"
  by (simp_all add: startCheckFiles_eq fresh_append) (simp add: fresh_def)

lemma endCheckFiles_window:
  "fresh (snd (snd (endCheckFiles this w))) = fresh w"
  "(Resolve h \<in> set (snd (snd (endCheckFiles this w))))
     = (Resolve h \<in> set w \<or> resolve this = Object h)"
  "resolve (fst (snd (endCheckFiles this w))) = resolve this"
  by (auto simp add: endCheckFiles_def Let_def fresh_def opened_append split: field.splits)

lemma deliver_known:
  assumes w: "\<forall>h. Resolve h \<in> set (window ext) \<longrightarrow> h < fresh (window ext)"
    and l: "\<forall>b<length (objects ext). \<forall>h. resolve (objects ext ! b) = Object h
              \<longrightarrow> h < fresh (window ext)"
  shows "(\<forall>h. Resolve h \<in> set (window (snd (deliver m p ext)))
            \<longrightarrow> h < fresh (window (snd (deliver m p ext))))
     \<and> (\<forall>b<length (objects (snd (deliver m p ext))).
          \<forall>h. resolve (objects (snd (deliver m p ext)) ! b) = Object h
            \<longrightarrow> h < fresh (window (snd (deliver m p ext))))"
proof (cases "snd (deliver m p ext) = ext")
  case True
  then show ?thesis using assms by simp
next
  case False
  then obtain hd where hd: "handlers ext m = Some hd"
    by (cases "handlers ext m") (simp_all add: deliver_None)
  show ?thesis
  proof (cases hd)
    case (OnStart a names)
    then obtain n where p: "p = NumberParam n" and a: "a < length (objects ext)"
      using False hd by (cases p) (simp_all add: deliver_def split: if_splits)
    show ?thesis
      unfolding p deliver_OnStart [OF hd [unfolded OnStart] a]
      using w l a by (auto simp add: startCheckFiles_window nth_list_update less_Suc_eq)
  next
    case (OnIncrement a)
    then obtain f where p: "p = StringParam f" and a: "a < length (objects ext)"
      using False hd by (cases p) (simp_all add: deliver_def split: if_splits)
    show ?thesis
      unfolding p deliver_OnIncrement [OF hd [unfolded OnIncrement] a]
      using w l a by (auto simp add: checkFile_window checkFile_fields nth_list_update)
  next
    case (OnEnd a)
    then have a: "a < length (objects ext)"
      using False hd by (simp add: deliver_def split: if_splits)
    show ?thesis
      unfolding deliver_OnEnd [OF hd [unfolded OnEnd] a]
      using w l a by (auto simp add: endCheckFiles_window nth_list_update)
  qed
qed

lemma run_known:
  assumes "\<forall>h. Resolve h \<in> set (window ext) \<longrightarrow> h < fresh (window ext)"
    and "\<forall>b<length (objects ext). \<forall>h. resolve (objects ext ! b) = Object h
              \<longrightarrow> h < fresh (window ext)"
  shows "(\<forall>h. Resolve h \<in> set (window (snd (run ms ext)))
            \<longrightarrow> h < fresh (window (snd (run ms ext))))
     \<and> (\<forall>b<length (objects (snd (run ms ext))).
          \<forall>h. resolve (objects (snd (run ms ext)) ! b) = Object h
            \<longrightarrow> h < fresh (window (snd (run ms ext))))"
  using assms
proof (induction ms arbitrary: ext)
  case Nil
  then show ?case by simp
next
  case (Cons m ms)
  obtain name p where m: "m = (name, p)" by (cases m)
  have "snd (run (m # ms) ext) = snd (run ms (snd (deliver name p ext)))"
    by (simp add: m split_beta)
  then show ?case
    using Cons.IH [of "snd (deliver name p ext)"] deliver_known [OF Cons.prems, of name p]
    by simp
qed

lemma fresh_not_resolved:
  "Resolve (fresh (window (snd (run ms activated)))) \<notin> set (window (snd (run ms activated)))"
proof -
  have "\<forall>b<length (objects activated). \<forall>h. resolve (objects activated ! b) = Object h
          \<longrightarrow> h < fresh (window activated)"
    by (simp add: objects_activated new_progressListener_def nth_Cons split: nat.split)
  then have "\<forall>h. Resolve h \<in> set (window (snd (run ms activated)))
            \<longrightarrow> h < fresh (window (snd (run ms activated)))"
    using run_known [of activated ms] by (simp add: window_activated)
  then show ?thesis by blast
qed

lemma js_small:
  "js_add 0 1 = 1" "js_add 1 1 = 2" "js_add 2 1 = 3" "js_add 3 1 = 4"
  "js_sub 25 0 = 25" "js_sub 50 25 = 25" "js_sub 75 50 = 25"
  unfolding js_add_def js_sub_def
  using round_double_of_int [of 1] round_double_of_int [of 2] round_double_of_int [of 3]
    round_double_of_int [of 4] round_double_of_int [of 25]
  by simp_all

lemmas stepping =
  deliver_def handlers_activated objects_activated window_activated
  startCheckFiles_def checkFile_def endCheckFiles_def percentComplete_def
  new_progressListener_def checkEvent_def analyzeEvent_def fresh_def Let_def
  js_small percent_quarters

lemma run_start_1:
  "snd (run [(''fsharp/startCheckFiles'', NumberParam 1)] activated)
     = activated
         \<lparr>objects := [\<lparr>countChecked = 0, nFiles = 1, progress = Object 0, resolve = Object 0\<rparr>,
                      new_progressListener],
          window := [WithProgress 0 ''Check 1 files'']\<rparr>"
  by (simp add: stepping)

section \<open>An end notification outside a run\<close>

text \<open>
  C2. The claim: an end notification received while the listener is idle, before any start
  or after a completed run, is a no-op and raises no exception.

  Before any start the field \<^verbatim>\<open>resolve\<close> is still \<^verbatim>\<open>undefined\<close>, and \<^verbatim>\<open>endCheckFiles\<close>
  calls it without a test: the handler throws a \<^verbatim>\<open>TypeError\<close>, after it has set
  \<^verbatim>\<open>progress\<close> to \<^verbatim>\<open>null\<close>. The same happens through the client, for the end notification
  of the file check delivered first.
\<close>

theorem end_before_start_throws:
  "endCheckFiles new_progressListener w
     = (Throw TypeError, new_progressListener\<lparr>progress := Null\<rparr>, w)
   \<and> fst (deliver ''fsharp/endCheckFiles'' NoParams activated) = Throw TypeError"
  by (simp add: endCheckFiles_def new_progressListener_def deliver_def handlers_activated
      objects_activated)

text \<open>
  After a completed run the field still holds the \<^verbatim>\<open>resolve\<close> function of that run. A
  further end notification calls it again, which changes nothing for the settled promise,
  and assigns the three fields the values they have.
\<close>

lemma end_after_end:
  "endCheckFiles \<lparr>countChecked = 0, nFiles = 0, progress = Null, resolve = Object h\<rparr> w
     = (Normal, \<lparr>countChecked = 0, nFiles = 0, progress = Null, resolve = Object h\<rparr>,
        w @ [Resolve h])"
  by (simp add: endCheckFiles_def)

section \<open>An increment notification outside a run\<close>

text \<open>
  C4. An increment notification for a listener that holds no surface (\<^verbatim>\<open>progress\<close> is
  \<^verbatim>\<open>undefined\<close> before the first start and \<^verbatim>\<open>null\<close> after an end) is a silent no-op: the
  handler returns normally, no report reaches the host, and no field of any listener
  changes.
\<close>

theorem increment_without_surface:
  assumes "handlers ext method = Some (OnIncrement a)"
    and "a < length (objects ext)"
    and "progress (objects ext ! a) = Undefined \<or> progress (objects ext ! a) = Null"
  shows "deliver method (StringParam fileName) ext = (Normal, ext)"
  using assms by (simp add: deliver_def checkFile_idle)

theorem increment_without_surface_witness:
  "handlers activated ''fsharp/checkFile'' = Some (OnIncrement 0)
   \<and> 0 < length (objects activated)
   \<and> progress (objects activated ! 0) = Undefined
   \<and> deliver ''fsharp/checkFile'' (StringParam ''x'') activated = (Normal, activated)"
proof -
  have h: "handlers activated ''fsharp/checkFile'' = Some (OnIncrement 0)"
    by (simp add: handlers_activated)
  have l: "0 < length (objects activated)"
    by (simp add: objects_activated)
  have p: "progress (objects activated ! 0) = Undefined \<or> progress (objects activated ! 0) = Null"
    by (simp add: objects_activated new_progressListener_def)
  show ?thesis
    using increment_without_surface [OF h l p, of "''x''"] h l
    by (simp add: objects_activated new_progressListener_def)
qed

section \<open>The percentage of a run\<close>

text \<open>
  C1 says that after a start with total \<open>T\<close> and \<open>k \<le> T\<close> increments the percentage is
  \<open>floor (k / (T + 1) * 100)\<close>. \<^verbatim>\<open>percentComplete\<close> evaluates this formula in numbers: the
  quotient is rounded to a number, and so is its product with 100. For \<open>T = 99\<close> and
  \<open>k = 57\<close> the quotient is the number nearest to 0.57, which lies below it; the product
  rounds to 56.99999999999999 and \<^verbatim>\<open>Math.floor\<close> returns 56, where the formula gives 57.
\<close>

theorem percent_57_of_100_counterexample:
  "percentComplete (fst (start_then checkEvent 99 (replicate 57 ''f'') new_progressListener [])) = 56
   \<and> spec_percent 57 99 = 57"
proof -
  have "percentComplete (fst (start_then checkEvent 99 (replicate 57 ''f'') new_progressListener []))
          = Math_floor (js_mul (js_div (of_nat (length (replicate 57 ''f''))) (of_nat 99 + 1)) 100)"
    by (rule percentComplete_exact_args) simp_all
  then show ?thesis
    using percent_57_of_100 by (simp add: spec_percent_def)
qed

text \<open>
  C1, as amended. For a total \<open>T < 2^53\<close> and \<open>k \<le> T\<close> increments after the start, the
  percentage is \<^verbatim>\<open>Math.floor\<close> of the formula evaluated in numbers on exactly \<open>k\<close> and
  \<open>T + 1\<close>; it differs from \<open>floor (k / (T + 1) * 100)\<close> by at most one, and for
  \<open>T < 2^46\<close> it is never above it; and it is non-decreasing in \<open>k\<close>: the percentage
  after any prefix of the increments is at most the percentage after all of them.
\<close>

theorem percent_of_prefix:
  assumes "T < 2 ^ 53" and "length fs \<le> T"
  shows "percentComplete (fst (start_then names T fs this w))
           = Math_floor (js_mul (js_div (of_nat (length fs)) (of_nat T + 1)) 100)
     \<and> \<bar>percentComplete (fst (start_then names T fs this w))
          - of_int (spec_percent (length fs) T)\<bar> \<le> 1
     \<and> (T < 2 ^ 46 \<longrightarrow>
          percentComplete (fst (start_then names T fs this w))
            \<le> of_int (spec_percent (length fs) T))
     \<and> percentComplete (fst (start_then names T (take j fs) this w))
          \<le> percentComplete (fst (start_then names T fs this w))"
proof -
  have len: "length fs \<le> 2 ^ 53" using assms by simp
  have p: "percentComplete (fst (start_then names T fs this w))
           = Math_floor (js_mul (js_div (of_nat (length fs)) (of_nat T + 1)) 100)"
    using assms(1) len by (rule percentComplete_exact_args)
  have "\<bar>\<lfloor>js_mul (js_div (of_nat (length fs)) (of_nat T + 1)) 100\<rfloor>
          - \<lfloor>(of_nat (length fs) :: rat) / (of_nat T + 1) * 100\<rfloor>\<bar> \<le> 1"
    using percent_error [OF assms(2)] by (rule floor_close)
  then have "(of_int \<bar>\<lfloor>js_mul (js_div (of_nat (length fs)) (of_nat T + 1)) 100\<rfloor>
          - \<lfloor>(of_nat (length fs) :: rat) / (of_nat T + 1) * 100\<rfloor>\<bar> :: rat) \<le> of_int 1"
    by (simp only: of_int_le_iff)
  then have "\<bar>Math_floor (js_mul (js_div (of_nat (length fs)) (of_nat T + 1)) 100)
          - of_int (spec_percent (length fs) T)\<bar> \<le> 1"
    unfolding Math_floor_def spec_percent_def by simp
  then show ?thesis
    using p start_then_mono [of names T j fs this w] percent_not_above [OF _ assms(2)] by simp
qed

theorem percent_of_prefix_witness:
  "(3::nat) < 2 ^ 53 \<and> length [''a'', ''b''] \<le> (3::nat)
   \<and> percentComplete (fst (start_then checkEvent 3 [''a'', ''b''] new_progressListener [])) = 50
   \<and> spec_percent 2 3 = 50
   \<and> percentComplete (fst (start_then checkEvent 3 [''a''] new_progressListener [])) = 25"
proof -
  have a: "(3::nat) < 2 ^ 53" by simp
  have b: "length [''a'', ''b''] \<le> (3::nat)" by simp
  have c: "length [''a''] \<le> (3::nat)" by simp
  show ?thesis
    using percent_of_prefix [where names = checkEvent and j = 1 and this = new_progressListener
          and w = "[]", OF a b]
      percent_of_prefix [where names = checkEvent and j = 1 and this = new_progressListener
          and w = "[]", OF a c]
      percent_quarters
    by (simp add: spec_percent_def)
qed

text \<open>
  C6 says that the percentage stays below 100 when all \<open>T\<close> items are counted, for every
  \<open>T\<close>. From \<open>T = 2^53\<close> on, \<^verbatim>\<open>nFiles + 1\<close> rounds back to \<^verbatim>\<open>nFiles\<close>; the quotient is
  then 1 and the percentage 100.
\<close>

theorem percent_at_2_53_counterexample:
  "percentComplete
     (fst (start_then checkEvent (2 ^ 53) (replicate (2 ^ 53) ''f'') new_progressListener [])) = 100"
proof -
  have s: "percentComplete
      (fst (start_then checkEvent (2 ^ 53) (replicate (2 ^ 53) ''f'') new_progressListener []))
    = Math_floor (js_mul (js_div (of_nat (min (length (replicate (2 ^ 53) ''f'')) (2 ^ 53)))
        (js_add (of_nat (2 ^ 53)) 1)) 100)"
    by (rule percentComplete_start_then)
  have m: "(of_nat (min (length (replicate (2 ^ 53) ''f'')) (2 ^ 53)) :: rat) = 2 ^ 53"
    by simp
  have d: "js_add (of_nat (2 ^ 53)) 1 = 2 ^ 53"
    using js_add_saturated by simp
  have q: "js_div (2 ^ 53) (2 ^ 53) = 1"
    unfolding js_div_def using round_double_one by simp
  have r: "js_mul 1 100 = 100"
    unfolding js_mul_def using round_double_of_int [of 100] by simp
  show ?thesis
    unfolding s m d q r Math_floor_def by simp
qed

text \<open>
  C6, as amended. For every total \<open>T < 2^53\<close>, the percentage after \<open>T\<close> increments is
  below 100.
\<close>

theorem percent_below_100:
  assumes "T < 2 ^ 53" and "length fs = T"
  shows "percentComplete (fst (start_then names T fs this w)) < 100"
proof -
  define x :: rat where "x = of_nat T / (of_nat T + 1)"
  define q where "q = round_double x"
  define r where "r = round_double (q * 100)"
  have p: "percentComplete (fst (start_then names T fs this w)) = Math_floor r"
    unfolding r_def q_def x_def js_mul_def [symmetric] js_div_def [symmetric]
    using percentComplete_exact_args [of T fs names this w] assms by simp
  have x0: "0 \<le> x" unfolding x_def by simp
  have xa: "x \<le> 1 - 1 / 2 ^ 53" unfolding x_def using assms(1) by (rule below_one)
  have "round_double (of_int 9007199254740991 * 2 powi (- 53)) = of_int 9007199254740991 * 2 powi (- 53)"
    by (rule round_double_exact) simp_all
  then have "round_double (1 - 1 / 2 ^ 53) = 1 - 1 / 2 ^ 53"
    by (simp add: power_int_def power_one_over)
  then have qa: "q \<le> 1 - 1 / 2 ^ 53"
    unfolding q_def using round_double_mono [OF x0 xa] by simp
  have q0: "0 \<le> q" unfolding q_def using x0 by (rule round_double_nonneg)
  have "q * 100 < 128" using qa by simp
  then have q1: "q * 100 < 2 powi 7" by (simp add: power_int_def)
  have "\<bar>r - q * 100\<bar> \<le> 2 powi (- 47)"
    unfolding r_def using round_double_error0 [of "q * 100" 7] q0 q1 by simp
  moreover have "q \<le> 1 - 1 / 9007199254740992"
    using qa by simp
  ultimately have "r < 100"
    unfolding two_powi_neg47 by linarith
  then have "\<lfloor>r\<rfloor> < 100" by (simp add: floor_less_iff)
  then have "(of_int \<lfloor>r\<rfloor> :: rat) < of_int 100" by (simp only: of_int_less_iff)
  then show ?thesis unfolding p Math_floor_def by simp
qed

theorem percent_below_100_witness:
  "(3::nat) < 2 ^ 53 \<and> length [''a'', ''b'', ''c''] = (3::nat)
   \<and> percentComplete (fst (start_then checkEvent 3 [''a'', ''b'', ''c''] new_progressListener [])) < 100"
proof -
  have a: "(3::nat) < 2 ^ 53" by simp
  have b: "length [''a'', ''b'', ''c''] = (3::nat)" by simp
  show ?thesis
    using percent_below_100 [where names = checkEvent and this = new_progressListener
        and w = "[]", OF a b] by simp
qed

section \<open>The reported increments\<close>

text \<open>
  C7. In a run with any total \<open>T\<close> and any increments, the host receives, after the surface
  of the run, one report for each increment, with the label of the increment and the
  difference of the percentages after and before it (the subtraction is exact). No
  difference is negative, and the reported increments of the run add up to the percentage
  after the last increment minus the percentage at the start.
\<close>

theorem reported_increments:
  "let P = (\<lambda>i. percentComplete (fst (start_then names T (take i fs) this w)))
   in snd (start_then names T fs this w)
        = w @ WithProgress (fresh w) (title names T) #
            map (\<lambda>i. Report (fresh w) (fs ! i) (P (Suc i) - P i)) [0..<length fs]
      \<and> (\<forall>i<length fs. 0 \<le> P (Suc i) - P i)
      \<and> sum_list (increments (snd (start_then names T fs this w))) - sum_list (increments w)
          = P (length fs) - P 0"
proof -
  define P where "P = (\<lambda>i. percentComplete (fst (start_then names T (take i fs) this w)))"
  have win: "snd (start_then names T fs this w)
        = w @ WithProgress (fresh w) (title names T) #
            map (\<lambda>i. Report (fresh w) (fs ! i) (P (Suc i) - P i)) [0..<length fs]"
    unfolding P_def by (rule start_then_window)
  have mono: "\<forall>i<length fs. 0 \<le> P (Suc i) - P i"
    unfolding P_def using start_then_step_mono [of names T _ fs this w] by simp
  have "sum_list (increments (snd (start_then names T fs this w)))
          = sum_list (increments w) + sum_list (map (\<lambda>i. P (Suc i) - P i) [0..<length fs])"
    unfolding win by (simp add: increments_append increments_reports)
  then have "sum_list (increments (snd (start_then names T fs this w))) - sum_list (increments w)
          = P (length fs) - P 0"
    unfolding sum_list_telescope by simp
  then show ?thesis
    using win mono unfolding P_def Let_def by blast
qed

theorem reported_increments_witness:
  "snd (start_then checkEvent 3 [''a'', ''b'', ''c''] new_progressListener [])
     = [WithProgress 0 ''Check 3 files'', Report 0 ''a'' 25, Report 0 ''b'' 25, Report 0 ''c'' 25]
   \<and> sum_list (increments (snd (start_then checkEvent 3 [''a'', ''b'', ''c''] new_progressListener [])))
       = 75"
  using reported_increments [of checkEvent 3 "[''a'', ''b'', ''c'']" new_progressListener "[]"]
    percent_of_three
  by (simp add: Let_def fresh_def title_checkEvent_3 upt_rec)

section \<open>Increments beyond the total\<close>

text \<open>
  C10 says that every increment raises \<^verbatim>\<open>countChecked\<close> by 1 while a surface is held.
  The counter is a number: \<open>2^53 + 1\<close> rounds back to \<open>2^53\<close>, so the increment after the
  \<open>2^53\<close>-th leaves the counter where it is.
\<close>

theorem counter_stops_at_2_53_counterexample:
  "countChecked (fst (start_then checkEvent 0 (replicate (2 ^ 53) ''f'' @ [''f''])
      new_progressListener []))
   = countChecked (fst (start_then checkEvent 0 (replicate (2 ^ 53) ''f'') new_progressListener []))"
  unfolding start_then_state by simp

text \<open>
  C10, as amended. Increments beyond the total are not capped. Whatever the total, each of
  the first \<open>2^53\<close> increments of a run raises \<^verbatim>\<open>countChecked\<close> by 1. For a total
  \<open>T < 2^53\<close> the percentage is 100 after \<open>T + 1\<close> increments and at least 100 after more;
  it exceeds 100, being 200 after \<open>2 * (T + 1)\<close> increments (for \<open>T < 2^52\<close>). Every further
  increment is reported with an increment that is not negative.
\<close>

theorem increments_beyond_total:
  "(length fs < 2 ^ 53 \<longrightarrow>
      countChecked (fst (start_then names T fs this w)) = of_nat (length fs)
      \<and> countChecked (fst (start_then names T (fs @ [f]) this w)) = of_nat (length fs) + 1)
   \<and> (T < 2 ^ 53 \<and> length fs = T + 1 \<longrightarrow>
        percentComplete (fst (start_then names T fs this w)) = 100)
   \<and> (T < 2 ^ 53 \<and> T < length fs \<longrightarrow>
        100 \<le> percentComplete (fst (start_then names T fs this w)))
   \<and> (T < 2 ^ 52 \<and> length fs = 2 * (T + 1) \<longrightarrow>
        percentComplete (fst (start_then names T fs this w)) = 200)
   \<and> (\<exists>d\<ge>0. snd (start_then names T (fs @ [f]) this w)
                = snd (start_then names T fs this w) @ [Report (fresh w) f d])"
proof -
  have one: "js_mul (js_div 1 1) 100 = 100"
    unfolding js_mul_def js_div_def
    using round_double_of_int [of 1] round_double_of_int [of 100] by simp
  have two: "js_mul (js_div 2 1) 100 = 200"
    unfolding js_mul_def js_div_def
    using round_double_of_int [of 2] round_double_of_int [of 200] by simp
  have full: "percentComplete (fst (start_then names T gs this w)) = 100"
    if "T < 2 ^ 53" and "length gs = T + 1" for gs
  proof -
    have "(of_nat (length gs) :: rat) / (of_nat T + 1) = 1"
      unfolding that(2) by (simp add: add_pos_nonneg)
    then have "js_div (of_nat (length gs)) (of_nat T + 1) = js_div 1 1"
      by (simp only: js_div_def div_by_1)
    moreover have "length gs \<le> 2 ^ 53" using that by simp
    ultimately show ?thesis
      using one that(1) by (simp add: percentComplete_exact_args Math_floor_def)
  qed
  have c1: "length fs < 2 ^ 53 \<longrightarrow>
      countChecked (fst (start_then names T fs this w)) = of_nat (length fs)
      \<and> countChecked (fst (start_then names T (fs @ [f]) this w)) = of_nat (length fs) + 1"
    unfolding start_then_state by (simp add: min_def)
  have c2: "T < 2 ^ 53 \<and> length fs = T + 1 \<longrightarrow>
        percentComplete (fst (start_then names T fs this w)) = 100"
    using full by blast
  have c3: "T < 2 ^ 53 \<and> T < length fs \<longrightarrow>
        100 \<le> percentComplete (fst (start_then names T fs this w))"
  proof
    assume a: "T < 2 ^ 53 \<and> T < length fs"
    then have "length (take (T + 1) fs) = T + 1" by simp
    then have "percentComplete (fst (start_then names T (take (T + 1) fs) this w)) = 100"
      using a full by blast
    then show "100 \<le> percentComplete (fst (start_then names T fs this w))"
      using start_then_mono [of names T "T + 1" fs this w] by simp
  qed
  have c4: "T < 2 ^ 52 \<and> length fs = 2 * (T + 1) \<longrightarrow>
        percentComplete (fst (start_then names T fs this w)) = 200"
  proof
    assume a: "T < 2 ^ 52 \<and> length fs = 2 * (T + 1)"
    have ne: "(of_nat T :: rat) + 1 \<noteq> 0"
      by (simp add: add_nonneg_eq_0_iff)
    have len: "(of_nat (length fs) :: rat) = 2 * (of_nat T + 1)"
      using a by simp
    have "2 * (of_nat T + 1) / (of_nat T + 1) = (2::rat)"
      using ne by (rule nonzero_mult_div_cancel_right)
    then have "(of_nat (length fs) :: rat) / (of_nat T + 1) = 2"
      unfolding len .
    then have "js_div (of_nat (length fs)) (of_nat T + 1) = js_div 2 1"
      by (simp only: js_div_def div_by_1)
    moreover have "length fs \<le> 2 ^ 53" "T < 2 ^ 53" using a by simp_all
    ultimately show "percentComplete (fst (start_then names T fs this w)) = 200"
      using two by (simp add: percentComplete_exact_args Math_floor_def)
  qed
  have "0 \<le> percentComplete (fst (start_then names T (fs @ [f]) this w))
             - percentComplete (fst (start_then names T fs this w))"
    using start_then_mono [of names T "length fs" "fs @ [f]" this w] by simp
  then have c5: "\<exists>d\<ge>0. snd (start_then names T (fs @ [f]) this w)
                = snd (start_then names T fs this w) @ [Report (fresh w) f d]"
    using start_then_snoc [of names T fs f this w] by blast
  show ?thesis
    using c1 c2 c3 c4 c5 by blast
qed

theorem increments_beyond_total_witness:
  "countChecked (fst (start_then checkEvent 0 [''a'', ''b'', ''c''] new_progressListener [])) = 3
   \<and> percentComplete (fst (start_then checkEvent 0 [''a''] new_progressListener [])) = 100
   \<and> percentComplete (fst (start_then checkEvent 0 [''a'', ''b''] new_progressListener [])) = 200"
  using increments_beyond_total [of "[''a'', ''b'']" checkEvent 0 new_progressListener "[]" "''c''"]
    increments_beyond_total [of "[''a'']" checkEvent 0 new_progressListener "[]" "''b''"]
  by simp

section \<open>A start notification during a run\<close>

text \<open>
  C3 says that a start notification received while the listener is active releases the
  surface of the unfinished run before it acquires the new one, so that a listener never
  has two open surfaces. \<^verbatim>\<open>startCheckFiles\<close> calls \<^verbatim>\<open>window.withProgress\<close> whatever the
  state of the listener and overwrites \<^verbatim>\<open>progress\<close> and \<^verbatim>\<open>resolve\<close>; nothing resolves the
  promise of the earlier surface. After two start notifications of the file check two
  surfaces are open, and after the end notification that follows the first one still is.
\<close>

theorem second_start_counterexample:
  "open_surfaces (window (snd (run [(''fsharp/startCheckFiles'', NumberParam 1),
                                    (''fsharp/startCheckFiles'', NumberParam 2)] activated))) = [0, 1]
   \<and> open_surfaces (window (snd (run [(''fsharp/startCheckFiles'', NumberParam 1),
                                      (''fsharp/startCheckFiles'', NumberParam 2),
                                      (''fsharp/endCheckFiles'', NoParams)] activated))) = [0]"
  by (simp add: stepping open_surfaces_def)

text \<open>
  C3, as amended. In every state that the extension reaches, a start notification of
  either event class releases nothing: the handler returns normally, the host sees one new
  surface with the title of the class and no other effect, every surface that was open is
  still open next to the new one, and the listener of the class holds the new surface and
  its \<^verbatim>\<open>resolve\<close> function, with \<^verbatim>\<open>countChecked\<close> 0 and \<^verbatim>\<open>nFiles\<close> the new total.
\<close>

theorem start_releases_nothing:
  assumes "names = checkEvent \<or> names = analyzeEvent"
  shows "let ext = snd (run ms activated);
             h = fresh (window ext);
             result = deliver (startEvent names) (NumberParam n) ext
         in fst result = Normal
            \<and> window (snd result) = window ext @ [WithProgress h (title names n)]
            \<and> open_surfaces (window (snd result)) = open_surfaces (window ext) @ [h]
            \<and> listener names (snd result)
                = Some \<lparr>countChecked = 0, nFiles = of_nat n, progress = Object h,
                        resolve = Object h\<rparr>"
proof -
  define ext where "ext = snd (run ms activated)"
  obtain a where a: "handlers ext (startEvent names) = Some (OnStart a names)" "a < length (objects ext)"
    using assms unfolding ext_def handlers_run length_objects_run
    by (auto simp add: handlers_activated checkEvent_def analyzeEvent_def)
  have "Resolve (fresh (window ext)) \<notin> set (window ext)"
    unfolding ext_def by (rule fresh_not_resolved)
  then show ?thesis
    unfolding ext_def [symmetric] Let_def deliver_OnStart [OF a] listener_def
    using a by (simp add: startCheckFiles_eq open_surfaces_WithProgress)
qed

theorem start_releases_nothing_witness:
  "open_surfaces (window (snd (run [(''fsharp/startCheckFiles'', NumberParam 1)] activated))) = [0]
   \<and> progress (objects (snd (run [(''fsharp/startCheckFiles'', NumberParam 1)] activated)) ! 0)
       = Object 0
   \<and> open_surfaces (window (snd (deliver ''fsharp/startCheckFiles'' (NumberParam 2)
        (snd (run [(''fsharp/startCheckFiles'', NumberParam 1)] activated))))) = [0, 1]
   \<and> listener checkEvent (snd (deliver ''fsharp/startCheckFiles'' (NumberParam 2)
        (snd (run [(''fsharp/startCheckFiles'', NumberParam 1)] activated))))
       = Some \<lparr>countChecked = 0, nFiles = 2, progress = Object 1, resolve = Object 1\<rparr>"
proof -
  have n: "checkEvent = checkEvent \<or> checkEvent = analyzeEvent" by simp
  have s: "startEvent checkEvent = ''fsharp/startCheckFiles''" by (simp add: checkEvent_def)
  show ?thesis
    using start_releases_nothing [OF n, of "[(''fsharp/startCheckFiles'', NumberParam 1)]" 2]
    unfolding s Let_def run_start_1
    by (simp add: open_surfaces_def fresh_def)
qed

section \<open>An end notification during a run\<close>

text \<open>
  C5 says that an end notification clears four fields, \<^verbatim>\<open>resolve\<close> among them.
  \<^verbatim>\<open>endCheckFiles\<close> assigns \<^verbatim>\<open>countChecked\<close>, \<^verbatim>\<open>nFiles\<close> and \<^verbatim>\<open>progress\<close> only: after a start
  and an end the listener still stores the \<^verbatim>\<open>resolve\<close> function of the finished run.
\<close>

theorem callback_kept_counterexample:
  "resolve (objects (snd (run [(''fsharp/startCheckFiles'', NumberParam 3),
                               (''fsharp/endCheckFiles'', NoParams)] activated)) ! 0) = Object 0"
  by (simp add: stepping)

text \<open>
  C5, as amended. For a listener that holds a surface and the \<^verbatim>\<open>resolve\<close> function of
  that surface, \<^verbatim>\<open>endCheckFiles\<close> returns normally; it sets \<^verbatim>\<open>countChecked\<close> and \<^verbatim>\<open>nFiles\<close> to
  0 and \<^verbatim>\<open>progress\<close> to \<^verbatim>\<open>null\<close>, and keeps \<^verbatim>\<open>resolve\<close>; it calls the stored \<^verbatim>\<open>resolve\<close>
  function once, after which the surface is no longer open.
\<close>

theorem end_while_active:
  assumes "progress this = Object h" and "resolve this = Object h"
  shows "endCheckFiles this w =
           (Normal, \<lparr>countChecked = 0, nFiles = 0, progress = Null, resolve = Object h\<rparr>,
            w @ [Resolve h])
     \<and> resolve_calls h (w @ [Resolve h]) = resolve_calls h w + 1
     \<and> h \<notin> set (open_surfaces (w @ [Resolve h]))"
  using assms
  by (simp add: endCheckFiles_def open_surfaces_def resolve_calls_def)

theorem end_while_active_witness:
  "progress \<lparr>countChecked = 1, nFiles = 3, progress = Object 0, resolve = Object 0\<rparr> = Object 0
   \<and> resolve \<lparr>countChecked = 1, nFiles = 3, progress = Object 0, resolve = Object 0\<rparr> = Object 0
   \<and> endCheckFiles \<lparr>countChecked = 1, nFiles = 3, progress = Object 0, resolve = Object 0\<rparr>
        [WithProgress 0 ''Check 3 files'', Report 0 ''a'' 25]
       = (Normal, \<lparr>countChecked = 0, nFiles = 0, progress = Null, resolve = Object 0\<rparr>,
          [WithProgress 0 ''Check 3 files'', Report 0 ''a'' 25, Resolve 0])
   \<and> resolve_calls 0 [WithProgress 0 ''Check 3 files'', Report 0 ''a'' 25, Resolve 0] = 1"
  using end_while_active [of "\<lparr>countChecked = 1, nFiles = 3, progress = Object 0, resolve = Object 0\<rparr>"
      0 "[WithProgress 0 ''Check 3 files'', Report 0 ''a'' 25]"]
  by (simp add: resolve_calls_def)

section \<open>Checking three files\<close>

text \<open>
  C8. The notifications start(3), increment a, increment b, increment c, end of the file
  check, delivered to the activated extension: every handler returns normally; the host
  sees one surface, titled \<open>Check 3 files\<close>, then the reports of a, b and c with the
  increment 25 each, then one call of the surface's \<^verbatim>\<open>resolve\<close> function, after the third
  report; the percentage of the listener is 0 after the start and 25, 50 and 75 after the
  increments.
\<close>

theorem check_three_files:
  "let scenario = [(''fsharp/startCheckFiles'', NumberParam 3),
                   (''fsharp/checkFile'', StringParam ''a''),
                   (''fsharp/checkFile'', StringParam ''b''),
                   (''fsharp/checkFile'', StringParam ''c''),
                   (''fsharp/endCheckFiles'', NoParams)];
       w = [WithProgress 0 (title checkEvent 3), Report 0 ''a'' 25, Report 0 ''b'' 25,
            Report 0 ''c'' 25, Resolve 0]
   in run scenario activated
        = ([Normal, Normal, Normal, Normal, Normal],
           activated
             \<lparr>objects := [\<lparr>countChecked = 0, nFiles = 0, progress = Null, resolve = Object 0\<rparr>,
                          new_progressListener],
              window := w\<rparr>)
      \<and> title checkEvent 3 = ''Check 3 files''
      \<and> map (\<lambda>i. map_option percentComplete (listener checkEvent (snd (run (take i scenario) activated))))
            [1, 2, 3, 4] = [Some 0, Some 25, Some 50, Some 75]
      \<and> opened w = [0] \<and> resolve_calls 0 w = 1 \<and> last w = Resolve 0"
  by (simp add: stepping listener_def resolve_calls_def)

section \<open>Two event classes\<close>

text \<open>
  C9. The file check and the project analysis have a listener each: the objects at the
  addresses 0 and 1. In every state that the extension reaches, whatever the sequence of
  notifications before, a notification of the file check (start, increment or end, with
  any parameter) leaves the listener of the project analysis as it is, all four fields,
  and a notification of the project analysis leaves the listener of the file check as it
  is.
\<close>

theorem listeners_disjoint:
  "let ext = snd (run ms activated);
       ext' = snd (deliver method p ext)
   in listener checkEvent ext = Some (objects ext ! 0)
      \<and> listener analyzeEvent ext = Some (objects ext ! 1)
      \<and> (method \<in> {startEvent checkEvent, incrementEvent checkEvent, endEvent checkEvent}
           \<longrightarrow> listener analyzeEvent ext' = listener analyzeEvent ext)
      \<and> (method \<in> {startEvent analyzeEvent, incrementEvent analyzeEvent, endEvent analyzeEvent}
           \<longrightarrow> listener checkEvent ext' = listener checkEvent ext)"
proof -
  define ext where "ext = snd (run ms activated)"
  define ext' where "ext' = snd (deliver method p ext)"
  have h: "handlers ext = handlers activated" "length (objects ext) = 2"
    unfolding ext_def by (rule handlers_run, rule length_objects_run)
  have h': "handlers ext' = handlers activated" "length (objects ext') = 2"
    unfolding ext'_def using h by (simp_all add: deliver_handlers deliver_length)
  have l: "listener checkEvent ext = Some (objects ext ! 0)"
    "listener analyzeEvent ext = Some (objects ext ! 1)"
    "listener checkEvent ext' = Some (objects ext' ! 0)"
    "listener analyzeEvent ext' = Some (objects ext' ! 1)"
    using h h' by (simp_all add: listener_def handlers_activated checkEvent_def analyzeEvent_def)
  have c: "objects ext' ! 1 = objects ext ! 1"
    if "method \<in> {startEvent checkEvent, incrementEvent checkEvent, endEvent checkEvent}"
  proof -
    from that consider "handlers ext method = Some (OnStart 0 checkEvent)"
      | "handlers ext method = Some (OnIncrement 0)"
      | "handlers ext method = Some (OnEnd 0)"
      unfolding h(1) handlers_activated by (auto simp add: checkEvent_def)
    then show ?thesis
      unfolding ext'_def by cases (simp_all add: deliver_other)
  qed
  have a: "objects ext' ! 0 = objects ext ! 0"
    if "method \<in> {startEvent analyzeEvent, incrementEvent analyzeEvent, endEvent analyzeEvent}"
  proof -
    from that consider "handlers ext method = Some (OnStart 1 analyzeEvent)"
      | "handlers ext method = Some (OnIncrement 1)"
      | "handlers ext method = Some (OnEnd 1)"
      unfolding h(1) handlers_activated by (auto simp add: analyzeEvent_def)
    then show ?thesis
      unfolding ext'_def by cases (simp_all add: deliver_other)
  qed
  show ?thesis
    unfolding Let_def ext_def [symmetric] ext'_def [symmetric] l
    using a c by simp
qed

theorem listeners_disjoint_witness:
  "listener analyzeEvent
     (snd (deliver ''fsharp/checkFile'' (StringParam ''a'')
        (snd (run [(''fsharp/startCheckFiles'', NumberParam 3),
                   (''fsharp/startAnalyzeProjects'', NumberParam 1)] activated))))
     = Some \<lparr>countChecked = 0, nFiles = 1, progress = Object 1, resolve = Object 1\<rparr>
   \<and> listener analyzeEvent
       (snd (run [(''fsharp/startCheckFiles'', NumberParam 3),
                  (''fsharp/startAnalyzeProjects'', NumberParam 1)] activated))
     = Some \<lparr>countChecked = 0, nFiles = 1, progress = Object 1, resolve = Object 1\<rparr>
   \<and> listener checkEvent
       (snd (deliver ''fsharp/checkFile'' (StringParam ''a'')
          (snd (run [(''fsharp/startCheckFiles'', NumberParam 3),
                     (''fsharp/startAnalyzeProjects'', NumberParam 1)] activated))))
     = Some \<lparr>countChecked = 1, nFiles = 3, progress = Object 0, resolve = Object 0\<rparr>"
proof -
  have r: "snd (run [(''fsharp/startCheckFiles'', NumberParam 3),
                     (''fsharp/startAnalyzeProjects'', NumberParam 1)] activated)
      = activated
         \<lparr>objects := [\<lparr>countChecked = 0, nFiles = 3, progress = Object 0, resolve = Object 0\<rparr>,
                      \<lparr>countChecked = 0, nFiles = 1, progress = Object 1, resolve = Object 1\<rparr>],
          window := [WithProgress 0 ''Check 3 files'', WithProgress 1 ''Analyze 1 projects'']\<rparr>"
    by (simp add: stepping)
  have m: "''fsharp/checkFile'' \<in> {startEvent checkEvent, incrementEvent checkEvent, endEvent checkEvent}"
    by (simp add: checkEvent_def)
  show ?thesis
    using listeners_disjoint [of "[(''fsharp/startCheckFiles'', NumberParam 3),
        (''fsharp/startAnalyzeProjects'', NumberParam 1)]" "''fsharp/checkFile''" "StringParam ''a''"] m
    unfolding Let_def r
    by (simp add: stepping listener_def)
qed

end
